theory Spec2Isabelle
  imports Main
begin

text \<open>
  The scan orchestration of the penetration-testing backend (\<^verbatim>\<open>backend/main.py\<close>,
  \<^verbatim>\<open>backend/models.py\<close>): seeding the test catalog, creating a scan with one result per
  test, running every test as a unit of its own, and aggregating the results into the
  status of the scan. The store is a record of tables and every function of the source
  becomes a function on it; what the program takes from outside (store failures that
  the source handles, the clock, the network, random draws) is an argument.
  The definitions come first, their properties after.
\<close>

section \<open>Data model (models.py)\<close>

text \<open>
  The two enumerations and the four mapped classes of \<^verbatim>\<open>models.py\<close>. A timestamp is a
  natural number (a reading of the clock); a nullable column is an \<open>option\<close>.
  Field names are those of the source, so they are written qualified
  (\<open>Scan.status\<close>, \<open>ScanResult.status\<close>) throughout.
\<close>

datatype TestStatusEnum = PENDING | IN_PROGRESS | COMPLETED | FAILED | ERROR

datatype TestResultEnum = NOT_RUN | PASSED | VULNERABLE | INFO

type_synonym datetime = nat

record Website =
  id :: nat
  url :: string
  created_at :: datetime
  last_scan_at :: "datetime option"

record TestDefinition =
  id :: nat
  name :: string
  description :: "string option"

record Scan =
  id :: nat
  website_id :: nat
  status :: TestStatusEnum
  created_at :: datetime
  completed_at :: "datetime option"

record ScanResult =
  id :: nat
  scan_id :: nat
  test_definition_id :: nat
  status :: TestStatusEnum
  result :: TestResultEnum
  summary :: "string option"
  details :: "string option"
  recommendations :: "string option"
  started_at :: "datetime option"
  completed_at :: "datetime option"

text \<open>The persistent store: one list of rows per table, in insertion order.\<close>

record database =
  websites :: "Website list"
  test_definitions :: "TestDefinition list"
  scans :: "Scan list"
  scan_results :: "ScanResult list"

text \<open>
  An integer primary key that the store generates on insert: one more than the largest
  key of the table, so it is a key no row of the table has.
\<close>

definition next_id :: "nat list \<Rightarrow> nat" where
  "next_id ids = Suc (foldr max ids 0)"

section \<open>Seeding the test catalog (main.py, populate_test_definitions)\<close>

definition test_defs :: "(string \<times> string) list" where
  "test_defs =
    [(''Vulnerability Scanning'', ''General vulnerability checks (e.g., outdated software).''),
     (''Web Application Firewall (WAF) Testing'', ''Testing WAF detection and bypass.''),
     (''Cross-Site Scripting (XSS) Testing'', ''Detecting XSS vulnerabilities.''),
     (''SQL Injection Testing'', ''Detecting SQL Injection vulnerabilities.''),
     (''Denial of Service (DoS) Testing'', ''Basic DoS resilience checks.''),
     (''Directory Traversal'', ''Checking for directory traversal vulnerabilities.''),
     (''API Security Testing'', ''Basic checks for common API vulnerabilities.''),
     (''Session Management Testing'', ''Analyzing session handling security.''),
     (''Cryptography and SSL/TLS Testing'',
        ''Checking SSL/TLS configuration and certificate validity.''),
     (''Social Engineering Testing'', ''Placeholder for social engineering test info.'')]"

text \<open>
  The loop over \<^verbatim>\<open>test_defs\<close>: each entry is looked up by name and added when no row
  has that name. The session flushes pending rows before every query, so a lookup sees
  the rows that earlier iterations added.
\<close>

fun populate_loop :: "(string \<times> string) list \<Rightarrow> TestDefinition list \<Rightarrow> TestDefinition list" where
  "populate_loop [] tbl = tbl"
| "populate_loop (test_data # rest) tbl =
     (case find (\<lambda>t. TestDefinition.name t = fst test_data) tbl of
        None \<Rightarrow>
          populate_loop rest
            (tbl @ [\<lparr>TestDefinition.id = next_id (map TestDefinition.id tbl),
                     name = fst test_data, description = Some (snd test_data)\<rparr>])
      | Some existing_test \<Rightarrow> populate_loop rest tbl)"

definition populate_test_definitions :: "database \<Rightarrow> database" where
  "populate_test_definitions db =
     db\<lparr>test_definitions := populate_loop test_defs (test_definitions db)\<rparr>"

section \<open>One test unit (main.py, run_single_test)\<close>

subsection \<open>What the probe sees of the outside world\<close>

text \<open>
  The exception classes of \<^verbatim>\<open>requests.exceptions\<close> that the handlers of the SSL/TLS
  check tell apart, each with the text \<^verbatim>\<open>str(e)\<close> gives; \<open>OtherException\<close> is any
  exception that is not a \<^verbatim>\<open>RequestException\<close>. The membership tests follow the class
  hierarchy of the library: \<^verbatim>\<open>SSLError\<close> and \<^verbatim>\<open>ProxyError\<close> derive from
  \<^verbatim>\<open>ConnectionError\<close>, \<^verbatim>\<open>ReadTimeout\<close> from \<^verbatim>\<open>Timeout\<close>, \<^verbatim>\<open>ConnectTimeout\<close> from both.
\<close>

datatype request_exception =
    SSLError string
  | ConnectTimeout string
  | ReadTimeout string
  | Timeout string
  | ProxyError string
  | ConnectionError string
  | HTTPError string
  | RequestException string
  | OtherException string

fun str :: "request_exception \<Rightarrow> string" where
  "str (SSLError m) = m"
| "str (ConnectTimeout m) = m"
| "str (ReadTimeout m) = m"
| "str (Timeout m) = m"
| "str (ProxyError m) = m"
| "str (ConnectionError m) = m"
| "str (HTTPError m) = m"
| "str (RequestException m) = m"
| "str (OtherException m) = m"

fun is_SSLError :: "request_exception \<Rightarrow> bool" where
  "is_SSLError (SSLError m) = True"
| "is_SSLError e = False"

fun is_Timeout :: "request_exception \<Rightarrow> bool" where
  "is_Timeout (ConnectTimeout m) = True"
| "is_Timeout (ReadTimeout m) = True"
| "is_Timeout (Timeout m) = True"
| "is_Timeout e = False"

fun is_ConnectionError :: "request_exception \<Rightarrow> bool" where
  "is_ConnectionError (SSLError m) = True"
| "is_ConnectionError (ConnectTimeout m) = True"
| "is_ConnectionError (ProxyError m) = True"
| "is_ConnectionError (ConnectionError m) = True"
| "is_ConnectionError e = False"

fun is_RequestException :: "request_exception \<Rightarrow> bool" where
  "is_RequestException (OtherException m) = False"
| "is_RequestException e = True"

text \<open>
  The response of \<^verbatim>\<open>requests.get\<close> after redirects: its status code, its final URL and
  the text of the \<^verbatim>\<open>HTTPError\<close> that \<^verbatim>\<open>raise_for_status\<close> builds for it.
\<close>

record Response =
  status_code :: nat
  url :: string
  http_error_text :: string

text \<open>
  Everything one run of \<^verbatim>\<open>run_single_test\<close> takes from outside the program: whether the
  store fails inside the first and the last transaction (with the text of the failure),
  the clock at both, what \<^verbatim>\<open>requests.get\<close> does, the scheme that \<^verbatim>\<open>urlparse\<close> finds in a
  URL, and the draw of \<^verbatim>\<open>random.choice\<close>.
\<close>

record test_env =
  begin_fault :: "string option"
  begin_now :: datetime
  requests_get :: "request_exception + Response"
  urlparse_scheme :: "string \<Rightarrow> string"
  random_draw :: nat
  finish_fault :: "string option"
  finish_now :: datetime

text \<open>The local variables that step 2 hands to step 3.\<close>

record verdict =
  final_status :: TestStatusEnum
  outcome :: TestResultEnum
  summary_text :: string
  details_text :: "string option"
  recommendations_text :: "string option"

subsection \<open>Step 1: fetch the row and mark it in progress (lines 141 to 160)\<close>

text \<open>
  The result is the store after the transaction and the test name, or \<open>None\<close> where the
  source returns: the row or its test definition is missing, or the transaction raised
  and was rolled back.
\<close>

definition mark_in_progress ::
  "nat \<Rightarrow> string option \<Rightarrow> datetime \<Rightarrow> database \<Rightarrow> database \<times> string option" where
  "mark_in_progress scan_result_id fault now db =
     (case fault of
        Some e \<Rightarrow> (db, None)
      | None \<Rightarrow>
         (case find (\<lambda>r. ScanResult.id r = scan_result_id) (scan_results db) of
            None \<Rightarrow> (db, None)
          | Some scan_result \<Rightarrow>
             (case find (\<lambda>t. TestDefinition.id t = test_definition_id scan_result)
                     (test_definitions db) of
                None \<Rightarrow> (db, None)
              | Some test_definition \<Rightarrow>
                 (db\<lparr>scan_results :=
                       map (\<lambda>r. if ScanResult.id r = scan_result_id
                                 then r\<lparr>ScanResult.status := IN_PROGRESS, started_at := Some now\<rparr>
                                 else r)
                           (scan_results db)\<rparr>,
                  Some (TestDefinition.name test_definition)))))"

subsection \<open>Step 2: the test logic (lines 162 to 244)\<close>

definition raise_for_status :: "Response \<Rightarrow> request_exception + unit" where
  "raise_for_status response =
     (if 400 \<le> status_code response \<and> status_code response < 600
      then Inl (HTTPError (http_error_text response)) else Inr ())"

text \<open>The body of the inner \<^verbatim>\<open>try\<close> (lines 173 to 193).\<close>

definition ssl_tls_request :: "test_env \<Rightarrow> string \<Rightarrow> request_exception + verdict" where
  "ssl_tls_request env url_arg =
     (case requests_get env of
        Inl e \<Rightarrow> Inl e
      | Inr response \<Rightarrow>
         (case raise_for_status response of
            Inl e \<Rightarrow> Inl e
          | Inr u \<Rightarrow>
             (let final_url = Response.url response in
              if urlparse_scheme env final_url = ''https''
              then Inr \<lparr>final_status = COMPLETED, outcome = PASSED,
                        summary_text = ''Website uses HTTPS.'',
                        details_text = Some (''The final URL ('' @ final_url @ '') is served over HTTPS.''),
                        recommendations_text = Some ''Ensure HTTPS is enforced (e.g., via HSTS) and uses modern TLS protocols/ciphers (requires deeper scan).''\<rparr>
              else Inr \<lparr>final_status = COMPLETED, outcome = VULNERABLE,
                        summary_text = ''Website does not enforce HTTPS.'',
                        details_text = Some (''The final URL ('' @ final_url @ '') is served over HTTP, which is insecure.''),
                        recommendations_text = Some ''Migrate the website to HTTPS and configure redirection from HTTP to HTTPS. Implement HSTS.''\<rparr>)))"

text \<open>
  The inner \<^verbatim>\<open>try\<close> with its four handlers, tried in the order of the source
  (lines 195 to 218). An exception that no handler takes goes on to the outer handler.
\<close>

definition ssl_tls_check :: "test_env \<Rightarrow> string \<Rightarrow> request_exception + verdict" where
  "ssl_tls_check env url_arg =
     (case ssl_tls_request env url_arg of
        Inr v \<Rightarrow> Inr v
      | Inl e \<Rightarrow>
         if is_SSLError e
         then Inr \<lparr>final_status = COMPLETED, outcome = VULNERABLE,
                   summary_text = ''SSL/TLS Certificate Error.'',
                   details_text = Some (''An SSL error occurred: '' @ str e @ ''. This could indicate an invalid, expired, self-signed, or misconfigured certificate.''),
                   recommendations_text = Some ''Review the SSL/TLS certificate configuration on the server. Ensure it's valid, trusted, covers the correct domain(s), and is correctly installed with the full chain.''\<rparr>
         else if is_Timeout e
         then Inr \<lparr>final_status = COMPLETED, outcome = INFO,
                   summary_text = ''Request Timed Out.'',
                   details_text = Some (''The request to '' @ url_arg @ '' timed out after 10 seconds.''),
                   recommendations_text = Some ''Check server availability and network connectivity. The server might be slow, unresponsive, or firewalled.''\<rparr>
         else if is_ConnectionError e
         then Inr \<lparr>final_status = COMPLETED, outcome = INFO,
                   summary_text = ''Connection Error.'',
                   details_text = Some (''Could not connect to '' @ url_arg @ ''. Error: '' @ str e),
                   recommendations_text = Some ''Verify the domain name resolves correctly and the server is reachable on the expected port (80/443).''\<rparr>
         else if is_RequestException e
         then Inr \<lparr>final_status = COMPLETED, outcome = INFO,
                   summary_text = ''Request Error.'',
                   details_text = Some (''An error occurred during the request: '' @ str e),
                   recommendations_text = Some ''Check the URL for correctness and ensure the website is accessible. Review server logs if possible.''\<rparr>
         else Inl e)"

text \<open>
  The placeholder for every other test (lines 228 to 236): \<^verbatim>\<open>random.choice\<close> picks the
  element of the list at the drawn index. The simulated delay leaves no trace in the
  values assigned and is not modelled.
\<close>

definition simulated_test :: "test_env \<Rightarrow> string \<Rightarrow> string \<Rightarrow> request_exception + verdict" where
  "simulated_test env test_name url_arg =
     Inr \<lparr>final_status = COMPLETED,
          outcome = [PASSED, VULNERABLE, INFO] ! (random_draw env mod 3),
          summary_text = test_name @ '' completed (simulated).'',
          details_text = Some (''Simulated details for '' @ test_name @ '' on '' @ url_arg @ ''.''),
          recommendations_text = Some (''Simulated recommendations for '' @ test_name @ ''.'')\<rparr>"

text \<open>
  The body of the outer \<^verbatim>\<open>try\<close> (lines 170 to 236), a branch on the test name. It
  gives the values assigned, or the exception that leaves it.
\<close>

definition test_logic_body :: "test_env \<Rightarrow> string \<Rightarrow> string \<Rightarrow> request_exception + verdict" where
  "test_logic_body env test_name url_arg =
     (if test_name = ''Cryptography and SSL/TLS Testing''
      then ssl_tls_check env url_arg
      else simulated_test env test_name url_arg)"

text \<open>
  The outer \<^verbatim>\<open>try\<close> with its handler (lines 169 to 244), which turns any exception of
  the test logic (any instance of \<^verbatim>\<open>Exception\<close>) into status ERROR and outcome NOT_RUN.
  No recommendation has been assigned when an exception reaches it. The defaults of
  lines 163 to 167 are overwritten on every path, so they do not appear.
\<close>

definition execute_test_logic :: "test_env \<Rightarrow> string \<Rightarrow> string \<Rightarrow> verdict" where
  "execute_test_logic env test_name url_arg =
     (case test_logic_body env test_name url_arg of
        Inr v \<Rightarrow> v
      | Inl e \<Rightarrow>
         \<lparr>final_status = ERROR, outcome = NOT_RUN,
          summary_text = ''An unexpected error occurred during the '' @ test_name @ '' test execution.'',
          details_text = Some (''Error details: '' @ str e),
          recommendations_text = None\<rparr>)"

subsection \<open>Step 3: write the final result (lines 247 to 270)\<close>

definition update_final_results ::
  "nat \<Rightarrow> verdict \<Rightarrow> string option \<Rightarrow> datetime \<Rightarrow> database \<Rightarrow> database" where
  "update_final_results scan_result_id v fault now db =
     (case fault of
        Some e \<Rightarrow> db
      | None \<Rightarrow>
         (case find (\<lambda>r. ScanResult.id r = scan_result_id) (scan_results db) of
            None \<Rightarrow> db
          | Some scan_result_update \<Rightarrow>
             db\<lparr>scan_results :=
                  map (\<lambda>r. if ScanResult.id r = scan_result_id
                            then r\<lparr>ScanResult.status := final_status v,
                                   result := outcome v,
                                   summary := Some (summary_text v),
                                   details := details_text v,
                                   recommendations := recommendations_text v,
                                   ScanResult.completed_at := Some now\<rparr>
                            else r)
                      (scan_results db)\<rparr>))"

subsection \<open>The whole unit\<close>

definition run_single_test :: "nat \<Rightarrow> string \<Rightarrow> test_env \<Rightarrow> database \<Rightarrow> database" where
  "run_single_test scan_result_id url_arg env db =
     (case mark_in_progress scan_result_id (begin_fault env) (begin_now env) db of
        (db1, None) \<Rightarrow> db1
      | (db1, Some test_name) \<Rightarrow>
          update_final_results scan_result_id (execute_test_logic env test_name url_arg)
            (finish_fault env) (finish_now env) db1)"

section \<open>The coordinator (main.py, run_all_tests_for_scan)\<close>

text \<open>
  What one run of the coordinator takes from outside: whether fetching the id list
  fails, the clock at the one update of the Scan row that the run makes, and the
  environment of the unit it launches for each ScanResult id.
\<close>

record scan_env =
  fetch_fault :: "string option"
  scan_now :: datetime
  unit_env :: "nat \<Rightarrow> test_env"

text \<open>The query for the ids of the results of a scan (lines 281 to 284).\<close>

definition fetch_scan_result_ids :: "nat \<Rightarrow> string option \<Rightarrow> database \<Rightarrow> string + nat list" where
  "fetch_scan_result_ids scan_id_arg fault db =
     (case fault of
        Some e \<Rightarrow> Inl e
      | None \<Rightarrow>
          Inr (map ScanResult.id
                (filter (\<lambda>r. ScanResult.scan_id r = scan_id_arg) (scan_results db))))"

text \<open>The handler of a failed fetch (lines 285 to 296).\<close>

definition mark_scan_error :: "nat \<Rightarrow> datetime \<Rightarrow> database \<Rightarrow> database" where
  "mark_scan_error scan_id_arg now db =
     (case find (\<lambda>s. Scan.id s = scan_id_arg) (scans db) of
        None \<Rightarrow> db
      | Some scan_err \<Rightarrow>
          db\<lparr>scans := map (\<lambda>s. if Scan.id s = scan_id_arg
                                then s\<lparr>Scan.status := ERROR, Scan.completed_at := Some now\<rparr>
                                else s)
                          (scans db)\<rparr>)"

text \<open>The branch for an empty id list (lines 298 to 309).\<close>

definition mark_scan_without_tests :: "nat \<Rightarrow> datetime \<Rightarrow> database \<Rightarrow> database" where
  "mark_scan_without_tests scan_id_arg now db =
     (case find (\<lambda>s. Scan.id s = scan_id_arg) (scans db) of
        None \<Rightarrow> db
      | Some scan \<Rightarrow>
          if Scan.status scan = PENDING
          then db\<lparr>scans := map (\<lambda>s. if Scan.id s = scan_id_arg
                                     then s\<lparr>Scan.status := COMPLETED, Scan.completed_at := Some now\<rparr>
                                     else s)
                               (scans db)\<rparr>
          else db)"

text \<open>
  The loop over the reloaded results (lines 342 to 351), on the pair of
  \<^verbatim>\<open>final_scan_status\<close> and \<^verbatim>\<open>all_tests_accounted_for\<close>; it stops at the first result
  that is not COMPLETED.
\<close>

fun check_results :: "ScanResult list \<Rightarrow> TestStatusEnum \<times> bool \<Rightarrow> TestStatusEnum \<times> bool" where
  "check_results [] st = st"
| "check_results (res # rest) (final_scan_status, all_tests_accounted_for) =
     (if ScanResult.status res = ERROR then (ERROR, all_tests_accounted_for)
      else if ScanResult.status res \<noteq> COMPLETED then (ERROR, False)
      else check_results rest (final_scan_status, all_tests_accounted_for))"

text \<open>The final check and update of the Scan row (lines 326 to 361).\<close>

definition final_scan_update :: "nat \<Rightarrow> nat list \<Rightarrow> datetime \<Rightarrow> database \<Rightarrow> database" where
  "final_scan_update scan_id_arg scan_result_ids now db =
     (case find (\<lambda>s. Scan.id s = scan_id_arg) (scans db) of
        None \<Rightarrow> db
      | Some scan \<Rightarrow>
         (let results = filter (\<lambda>r. ScanResult.scan_id r = Scan.id scan) (scan_results db);
              all_tests_accounted_for = (length results = length scan_result_ids);
              st = check_results results (COMPLETED, all_tests_accounted_for);
              final_scan_status = (if \<not> snd st then ERROR else fst st)
          in db\<lparr>scans := map (\<lambda>s. if Scan.id s = scan_id_arg
                                    then s\<lparr>Scan.status := final_scan_status,
                                           Scan.completed_at := Some now\<rparr>
                                    else s)
                              (scans db)\<rparr>))"

text \<open>
  The tasks of \<^verbatim>\<open>asyncio.gather\<close>, run one after the other in the order of the id list.
  Each unit reads and writes only the row of its own id, so the order does not show in
  the store (lemmas \<open>run_single_test_commute\<close> and \<open>gather_swap\<close> below).
\<close>

fun gather :: "nat list \<Rightarrow> string \<Rightarrow> (nat \<Rightarrow> test_env) \<Rightarrow> database \<Rightarrow> database" where
  "gather [] url_arg envs db = db"
| "gather (sr_id # tasks) url_arg envs db =
     gather tasks url_arg envs (run_single_test sr_id url_arg (envs sr_id) db)"

definition run_all_tests_for_scan :: "nat \<Rightarrow> string \<Rightarrow> scan_env \<Rightarrow> database \<Rightarrow> database" where
  "run_all_tests_for_scan scan_id_arg url_arg env db =
     (case fetch_scan_result_ids scan_id_arg (fetch_fault env) db of
        Inl e \<Rightarrow> mark_scan_error scan_id_arg (scan_now env) db
      | Inr scan_result_ids \<Rightarrow>
          if scan_result_ids = [] then mark_scan_without_tests scan_id_arg (scan_now env) db
          else final_scan_update scan_id_arg scan_result_ids (scan_now env)
                 (gather scan_result_ids url_arg (unit_env env) db))"

section \<open>Creating a scan (main.py, start_scan)\<close>

datatype exception = HTTPException nat string | Exception string

text \<open>
  The response: the new Scan row with its Website and its ScanResult rows, as loaded
  inside the transaction.
\<close>

record ScanResponse =
  scan :: Scan
  website :: Website
  results :: "ScanResult list"

text \<open>The loop that adds one ScanResult per test definition (lines 424 to 431).\<close>

fun add_scan_results :: "nat \<Rightarrow> TestDefinition list \<Rightarrow> ScanResult list \<Rightarrow> ScanResult list" where
  "add_scan_results new_scan_id [] tbl = tbl"
| "add_scan_results new_scan_id (test_def # rest) tbl =
     add_scan_results new_scan_id rest
       (tbl @ [\<lparr>ScanResult.id = next_id (map ScanResult.id tbl),
                scan_id = new_scan_id,
                test_definition_id = TestDefinition.id test_def,
                status = PENDING, result = NOT_RUN,
                summary = None, details = None, recommendations = None,
                started_at = None, completed_at = None\<rparr>])"

text \<open>
  A failure of the store inside the transaction, with its text. Where it strikes shows
  only in whether the check of the catalog has been passed by then, so two places
  stand for all: the first query, and the commit.
\<close>

datatype store_fault = At_first_query string | At_commit string

text \<open>Finding or creating the Website row (lines 393 to 405).\<close>

definition find_or_create_website :: "string \<Rightarrow> datetime \<Rightarrow> database \<Rightarrow> Website \<times> database" where
  "find_or_create_website url_to_scan now db =
     (case find (\<lambda>w. Website.url w = url_to_scan) (websites db) of
        None \<Rightarrow>
          (let w = \<lparr>Website.id = next_id (map Website.id (websites db)),
                    url = url_to_scan, created_at = now, last_scan_at = None\<rparr>
           in (w, db\<lparr>websites := websites db @ [w]\<rparr>))
      | Some w \<Rightarrow> (w, db))"

text \<open>
  The body of the transaction (lines 393 to 460), on the state of the session. It
  gives the exception it raises, or the state to commit with the response and the
  arguments of the background task.
\<close>

definition start_scan_body ::
  "string \<Rightarrow> string option \<Rightarrow> datetime \<Rightarrow> database
     \<Rightarrow> exception + (database \<times> ScanResponse \<times> (nat \<times> string))" where
  "start_scan_body url_to_scan commit_fault now db =
     (let website_row = fst (find_or_create_website url_to_scan now db);
          db1 = snd (find_or_create_website url_to_scan now db);
          all_tests = test_definitions db1
      in if all_tests = []
         then Inl (HTTPException 500 ''No test definitions found in the database.'')
         else
          (let new_scan = \<lparr>Scan.id = next_id (map Scan.id (scans db1)),
                           website_id = Website.id website_row,
                           status = PENDING, created_at = now, completed_at = None\<rparr>;
               db2 = db1\<lparr>scans := scans db1 @ [new_scan]\<rparr>;
               db3 = db2\<lparr>scan_results :=
                          add_scan_results (Scan.id new_scan) all_tests (scan_results db2)\<rparr>;
               db4 = db3\<lparr>websites :=
                          map (\<lambda>w. if Website.id w = Website.id website_row
                                    then w\<lparr>last_scan_at := Some now\<rparr> else w)
                              (websites db3)\<rparr>
           in (case find (\<lambda>s. Scan.id s = Scan.id new_scan) (scans db4) of
                 None \<Rightarrow>
                   Inl (HTTPException 500 ''Failed to retrieve scan details after creation.'')
               | Some final_scan_obj \<Rightarrow>
                  (let response_data =
                         \<lparr>scan = final_scan_obj,
                          website = website_row\<lparr>last_scan_at := Some now\<rparr>,
                          results = filter (\<lambda>r. ScanResult.scan_id r = Scan.id final_scan_obj)
                                      (scan_results db4)\<rparr>
                   in (case commit_fault of
                         Some e \<Rightarrow> Inl (Exception e)
                       | None \<Rightarrow>
                           Inr (db4, response_data, (Scan.id new_scan, url_to_scan)))))))"

definition start_scan_transaction ::
  "string \<Rightarrow> store_fault option \<Rightarrow> datetime \<Rightarrow> database
     \<Rightarrow> exception + (database \<times> ScanResponse \<times> (nat \<times> string))" where
  "start_scan_transaction url_to_scan fault now db =
     (case fault of
        Some (At_first_query e) \<Rightarrow> Inl (Exception e)
      | Some (At_commit e) \<Rightarrow> start_scan_body url_to_scan (Some e) now db
      | None \<Rightarrow> start_scan_body url_to_scan None now db)"

text \<open>
  The endpoint: the transaction commits the state of the session, or is rolled back
  when its body raises, which leaves the store as it was; the two handlers of lines
  465 to 471 turn every exception into an \<^verbatim>\<open>HTTPException\<close>. A background task is
  scheduled only with a response.
\<close>

definition start_scan ::
  "string \<Rightarrow> store_fault option \<Rightarrow> datetime \<Rightarrow> database
     \<Rightarrow> database \<times> (exception + (ScanResponse \<times> (nat \<times> string)))" where
  "start_scan url_to_scan fault now db =
     (case start_scan_transaction url_to_scan fault now db of
        Inr (db', response_data, task) \<Rightarrow> (db', Inr (response_data, task))
      | Inl (HTTPException code detail) \<Rightarrow> (db, Inl (HTTPException code detail))
      | Inl (Exception e) \<Rightarrow>
          (db, Inl (HTTPException 500 (''Internal server error during scan initiation: '' @ e))))"

section \<open>The running system\<close>

text \<open>
  The constraints of the schema that the properties below rely on: the primary key of
  \<^verbatim>\<open>scan_results\<close> is unique, and the foreign key \<^verbatim>\<open>scan_results.scan_id\<close> refers to a
  row of \<^verbatim>\<open>scans\<close>.
\<close>

definition foreign_keys_hold :: "database \<Rightarrow> bool" where
  "foreign_keys_hold db \<longleftrightarrow>
     list_all (\<lambda>r. ScanResult.scan_id r \<in> set (map Scan.id (scans db))) (scan_results db)"

definition store_ok :: "database \<Rightarrow> bool" where
  "store_ok db \<longleftrightarrow> distinct (map ScanResult.id (scan_results db)) \<and> foreign_keys_hold db"

text \<open>
  The program as a transition system. A state is the store, the background tasks that
  \<^verbatim>\<open>start_scan\<close> has scheduled (one run of \<^verbatim>\<open>run_all_tests_for_scan\<close> each) and the units
  that these have launched (one run of \<^verbatim>\<open>run_single_test\<close> each), every task with the
  point of its code it has reached. A step is one request, or one task running from
  one point where it can be suspended to the next: the tasks of one event loop
  interleave only there, and each transaction is one step. Every step takes its faults,
  clock and network answers freely.
\<close>

datatype unit_pc = Before_begin | Before_logic string | Before_finish verdict | Unit_done

datatype coordinator_pc = Scheduled | Joining "nat list" | Coordinator_done

record system =
  store :: database
  coordinators :: "(nat \<times> string \<times> coordinator_pc) list"
  units :: "(nat \<times> string \<times> unit_pc) list"

datatype label =
    Request
  | Coordinator_start nat
  | Unit_begin nat
  | Unit_logic nat
  | Unit_finish nat
  | Coordinator_final nat

text \<open>
  \<^verbatim>\<open>run_all_tests_for_scan\<close> up to the launch of its tasks (lines 275 to 313): the store
  it leaves and the ids it has launched a unit for, none where it has returned.
\<close>

definition start_tests :: "nat \<Rightarrow> string option \<Rightarrow> datetime \<Rightarrow> database \<Rightarrow> database \<times> nat list" where
  "start_tests scan_id_arg fault now db =
     (case fetch_scan_result_ids scan_id_arg fault db of
        Inl e \<Rightarrow> (mark_scan_error scan_id_arg now db, [])
      | Inr scan_result_ids \<Rightarrow>
          if scan_result_ids = [] then (mark_scan_without_tests scan_id_arg now db, [])
          else (db, scan_result_ids))"

fun scheduled_task :: "exception + (ScanResponse \<times> (nat \<times> string)) \<Rightarrow> (nat \<times> string \<times> coordinator_pc) list" where
  "scheduled_task (Inl e) = []"
| "scheduled_task (Inr (response_data, (new_scan_id, url_to_scan))) =
     [(new_scan_id, url_to_scan, Scheduled)]"

fun after_begin :: "string option \<Rightarrow> unit_pc" where
  "after_begin None = Unit_done"
| "after_begin (Some test_name) = Before_logic test_name"

definition all_done :: "nat list \<Rightarrow> (nat \<times> string \<times> unit_pc) list \<Rightarrow> bool" where
  "all_done ids us \<longleftrightarrow> list_all (\<lambda>t. fst t \<in> set ids \<longrightarrow> snd (snd t) = Unit_done) us"

inductive step :: "system \<Rightarrow> label \<Rightarrow> system \<Rightarrow> bool" where
  request:
    "start_scan url_to_scan fault now (store s) = (db', r) \<Longrightarrow>
     step s Request (s\<lparr>store := db', coordinators := coordinators s @ scheduled_task r\<rparr>)"
| coordinator_start:
    "k < length (coordinators s) \<Longrightarrow> coordinators s ! k = (sid, u, Scheduled) \<Longrightarrow>
     start_tests sid fault now (store s) = (db', ids) \<Longrightarrow>
     step s (Coordinator_start sid)
       (s\<lparr>store := db',
          coordinators := (coordinators s)
             [k := (sid, u, if ids = [] then Coordinator_done else Joining ids)],
          units := units s @ map (\<lambda>i. (i, u, Before_begin)) ids\<rparr>)"
| unit_begin:
    "k < length (units s) \<Longrightarrow> units s ! k = (i, u, Before_begin) \<Longrightarrow>
     mark_in_progress i fault now (store s) = (db', r) \<Longrightarrow>
     step s (Unit_begin i)
       (s\<lparr>store := db', units := (units s)[k := (i, u, after_begin r)]\<rparr>)"
| unit_logic:
    "k < length (units s) \<Longrightarrow> units s ! k = (i, u, Before_logic test_name) \<Longrightarrow>
     step s (Unit_logic i)
       (s\<lparr>units := (units s)[k := (i, u, Before_finish (execute_test_logic env test_name u))]\<rparr>)"
| unit_finish:
    "k < length (units s) \<Longrightarrow> units s ! k = (i, u, Before_finish v) \<Longrightarrow>
     step s (Unit_finish i)
       (s\<lparr>store := update_final_results i v fault now (store s),
          units := (units s)[k := (i, u, Unit_done)]\<rparr>)"
| coordinator_final:
    "k < length (coordinators s) \<Longrightarrow> coordinators s ! k = (sid, u, Joining ids) \<Longrightarrow>
     all_done ids (units s) \<Longrightarrow>
     step s (Coordinator_final sid)
       (s\<lparr>store := final_scan_update sid ids now (store s),
          coordinators := (coordinators s)[k := (sid, u, Coordinator_done)]\<rparr>)"

text \<open>
  The process starts on whatever an earlier run has left in the store, seeds the
  catalog, and has no task yet.
\<close>

inductive reachable :: "system \<Rightarrow> bool" where
  startup: "store_ok db \<Longrightarrow>
     reachable \<lparr>store = populate_test_definitions db, coordinators = [], units = []\<rparr>"
| after_step: "reachable s \<Longrightarrow> step s l s' \<Longrightarrow> reachable s'"

text \<open>The moves of the status of a ScanResult that a step with a given label may make.\<close>

fun status_move :: "label \<Rightarrow> nat \<Rightarrow> TestStatusEnum \<Rightarrow> TestStatusEnum \<Rightarrow> bool" where
  "status_move (Unit_begin i) j old new =
     (new = old \<or> (j = i \<and> old = PENDING \<and> new = IN_PROGRESS))"
| "status_move (Unit_finish i) j old new =
     (new = old \<or> (j = i \<and> old = IN_PROGRESS \<and> (new = COMPLETED \<or> new = ERROR)))"
| "status_move l j old new = (new = old)"

text \<open>
  The status of the ScanResult with a given id, as the query by primary key finds it.
\<close>

definition result_status :: "database \<Rightarrow> nat \<Rightarrow> TestStatusEnum option" where
  "result_status db i =
     map_option ScanResult.status (find (\<lambda>r. ScanResult.id r = i) (scan_results db))"

text \<open>
  What holds in every state that the system reaches: the constraints of the schema;
  no two units for one id; the row of a unit that has not begun is PENDING, the row of
  a unit between its two writes is IN_PROGRESS and the status it is about to write is
  COMPLETED or ERROR; no two scheduled tasks for one scan; and every result of a scan
  whose task has not started is PENDING and has no unit.
\<close>

fun pc_fits :: "unit_pc \<Rightarrow> TestStatusEnum option \<Rightarrow> bool" where
  "pc_fits Before_begin st = (st = Some PENDING)"
| "pc_fits (Before_logic test_name) st = (st = Some IN_PROGRESS)"
| "pc_fits (Before_finish v) st =
     (st = Some IN_PROGRESS \<and> (final_status v = COMPLETED \<or> final_status v = ERROR))"
| "pc_fits Unit_done st = (st \<noteq> None)"

definition invariant :: "system \<Rightarrow> bool" where
  "invariant s \<longleftrightarrow>
     store_ok (store s)
   \<and> distinct (map fst (units s))
   \<and> (\<forall>t \<in> set (units s). pc_fits (snd (snd t)) (result_status (store s) (fst t)))
   \<and> distinct (map fst (coordinators s))
   \<and> (\<forall>c \<in> set (coordinators s). fst c \<in> set (map Scan.id (scans (store s))))
   \<and> (\<forall>c \<in> set (coordinators s). snd (snd c) = Scheduled \<longrightarrow>
         (\<forall>r \<in> set (scan_results (store s)). ScanResult.scan_id r = fst c \<longrightarrow>
            ScanResult.status r = PENDING \<and> ScanResult.id r \<notin> set (map fst (units s))))"

section \<open>Concrete inputs\<close>

text \<open>A page that is missing on a server reached over HTTPS, and a run that gets it.\<close>

definition response_404 :: Response where
  "response_404 = \<lparr>status_code = 404, url = ''https://example.com/missing'',
     http_error_text = ''404 Client Error: Not Found for url: https://example.com/missing''\<rparr>"

definition env_404 :: test_env where
  "env_404 = \<lparr>begin_fault = None, begin_now = 1, requests_get = Inr response_404,
     urlparse_scheme = takeWhile (\<lambda>c. c \<noteq> CHR '':''), random_draw = 0,
     finish_fault = None, finish_now = 2\<rparr>"

text \<open>
  A store with one scan of one site and its one result, for the SSL/TLS check; and a run
  of the unit in which the request raises an exception that is not of the request
  layer, with a choice of what the store does at the final write.
\<close>

definition small_db :: database where
  "small_db =
     \<lparr>websites = [\<lparr>Website.id = 1, url = ''http://example.com'', created_at = 0,
                    last_scan_at = Some 0\<rparr>],
      test_definitions = [\<lparr>TestDefinition.id = 1, name = ''Cryptography and SSL/TLS Testing'',
                    description = None\<rparr>],
      scans = [\<lparr>Scan.id = 1, website_id = 1, status = PENDING, created_at = 0,
                    completed_at = None\<rparr>],
      scan_results = [\<lparr>ScanResult.id = 1, scan_id = 1, test_definition_id = 1,
                    status = PENDING, result = NOT_RUN, summary = None, details = None,
                    recommendations = None, started_at = None, completed_at = None\<rparr>]\<rparr>"

definition env_raising :: "string option \<Rightarrow> test_env" where
  "env_raising fault = \<lparr>begin_fault = None, begin_now = 1,
     requests_get = Inl (OtherException ''unexpected''),
     urlparse_scheme = takeWhile (\<lambda>c. c \<noteq> CHR '':''), random_draw = 0,
     finish_fault = fault, finish_now = 2\<rparr>"


text \<open>A run of the unit in which the site answers over HTTPS with status 200.\<close>

definition env_https :: test_env where
  "env_https = \<lparr>begin_fault = None, begin_now = 1,
     requests_get = Inr \<lparr>status_code = 200, url = ''https://example.com/'', http_error_text = []\<rparr>,
     urlparse_scheme = takeWhile (\<lambda>c. c \<noteq> CHR '':''), random_draw = 0,
     finish_fault = None, finish_now = 2\<rparr>"

text \<open>
  The same store after the unit has completed, the same store without any result, and
  a run of the coordinator with a choice of what the store does at the fetch.
\<close>

definition done_db :: database where
  "done_db = small_db\<lparr>scan_results :=
      [\<lparr>ScanResult.id = 1, scan_id = 1, test_definition_id = 1,
        status = COMPLETED, result = PASSED, summary = Some ''Website uses HTTPS.'',
        details = None, recommendations = None, started_at = Some 1, completed_at = Some 2\<rparr>]\<rparr>"

definition no_results_db :: database where
  "no_results_db = small_db\<lparr>scan_results := []\<rparr>"

definition scan_env_with :: "string option \<Rightarrow> scan_env" where
  "scan_env_with fault = \<lparr>fetch_fault = fault, scan_now = 9, unit_env = (\<lambda>i. env_404)\<rparr>"



text \<open>
  A store without any row, and the response to a request for a scan of the site of the
  small store at time 5.
\<close>

definition empty_db :: database where
  "empty_db = \<lparr>websites = [], test_definitions = [], scans = [], scan_results = []\<rparr>"

definition small_response :: ScanResponse where
  "small_response =
     \<lparr>scan = \<lparr>Scan.id = 2, website_id = 1, status = PENDING, created_at = 5,
               completed_at = None\<rparr>,
      website = \<lparr>Website.id = 1, url = ''http://example.com'', created_at = 0,
               last_scan_at = Some 5\<rparr>,
      results = [\<lparr>ScanResult.id = 2, scan_id = 2, test_definition_id = 1,
               status = PENDING, result = NOT_RUN, summary = None, details = None,
               recommendations = None, started_at = None, completed_at = None\<rparr>]\<rparr>"


text \<open>
  A run of the system: the process starts on an empty store, a scan of one site is
  requested, its task starts and launches the units, and the first unit begins.
\<close>

definition state_0 :: system where
  "state_0 = \<lparr>store = populate_test_definitions empty_db, coordinators = [], units = []\<rparr>"

definition state_1 :: system where
  "state_1 = state_0
     \<lparr>store := fst (start_scan ''http://example.com'' None 5 (store state_0)),
      coordinators := coordinators state_0
         @ scheduled_task (snd (start_scan ''http://example.com'' None 5 (store state_0)))\<rparr>"

definition state_2 :: system where
  "state_2 = state_1
     \<lparr>store := fst (start_tests 1 None 6 (store state_1)),
      coordinators := (coordinators state_1)
         [0 := (1, ''http://example.com'',
                if snd (start_tests 1 None 6 (store state_1)) = [] then Coordinator_done
                else Joining (snd (start_tests 1 None 6 (store state_1))))],
      units := units state_1
         @ map (\<lambda>i. (i, ''http://example.com'', Before_begin))
             (snd (start_tests 1 None 6 (store state_1)))\<rparr>"

definition state_3 :: system where
  "state_3 = state_2
     \<lparr>store := fst (mark_in_progress 1 None 7 (store state_2)),
      units := (units state_2)
         [0 := (1, ''http://example.com'',
                after_begin (snd (mark_in_progress 1 None 7 (store state_2))))]\<rparr>"


section \<open>Properties of the seeding step\<close>

lemma next_id_upper: "x \<in> set ids \<Longrightarrow> x < next_id ids"
  unfolding next_id_def by (induction ids) (auto simp: less_Suc_eq_le max_def)

lemma next_id_fresh: "next_id ids \<notin> set ids"
  using next_id_upper [of "next_id ids" ids] by auto

lemma find_name_None:
  "find (\<lambda>t. TestDefinition.name t = n) tbl = None \<longleftrightarrow> n \<notin> TestDefinition.name ` set tbl"
  by (auto simp: find_None_iff)

lemma populate_loop_names:
  "TestDefinition.name ` set (populate_loop defs tbl) = TestDefinition.name ` set tbl \<union> fst ` set defs"
proof (induction defs arbitrary: tbl)
  case Nil
  show ?case by simp
next
  case (Cons test_data rest)
  show ?case
  proof (cases "find (\<lambda>t. TestDefinition.name t = fst test_data) tbl")
    case None
    then show ?thesis by (simp add: Cons.IH)
  next
    case (Some existing_test)
    then have "fst test_data \<in> TestDefinition.name ` set tbl"
      using find_name_None [of "fst test_data" tbl] by auto
    with Some show ?thesis by (auto simp: Cons.IH)
  qed
qed

lemma populate_loop_present:
  "fst ` set defs \<subseteq> TestDefinition.name ` set tbl \<Longrightarrow> populate_loop defs tbl = tbl"
proof (induction defs arbitrary: tbl)
  case Nil
  show ?case by simp
next
  case (Cons test_data rest)
  from Cons.prems have "find (\<lambda>t. TestDefinition.name t = fst test_data) tbl \<noteq> None"
    using find_name_None [of "fst test_data" tbl] by auto
  moreover from Cons.prems have "populate_loop rest tbl = tbl"
    by (intro Cons.IH) auto
  ultimately show ?case by auto
qed

lemma populate_loop_twice:
  "populate_loop defs (populate_loop defs tbl) = populate_loop defs tbl"
  by (rule populate_loop_present) (simp add: populate_loop_names)

lemma populate_loop_distinct:
  "distinct (map TestDefinition.name tbl) \<Longrightarrow>
   distinct (map TestDefinition.name (populate_loop defs tbl))"
proof (induction defs arbitrary: tbl)
  case Nil
  then show ?case by simp
next
  case (Cons test_data rest)
  show ?case
  proof (cases "find (\<lambda>t. TestDefinition.name t = fst test_data) tbl")
    case None
    then have "fst test_data \<notin> TestDefinition.name ` set tbl"
      using find_name_None [of "fst test_data" tbl] by simp
    with Cons.prems have
      "distinct (map TestDefinition.name
         (tbl @ [\<lparr>TestDefinition.id = next_id (map TestDefinition.id tbl),
                  name = fst test_data, description = Some (snd test_data)\<rparr>]))"
      by simp
    then show ?thesis using None by (simp add: Cons.IH del: distinct_append map_append)
  next
    case (Some existing_test)
    with Cons show ?thesis by simp
  qed
qed

lemma distinct_names_count:
  "distinct (map TestDefinition.name tbl) \<Longrightarrow> n \<in> TestDefinition.name ` set tbl \<Longrightarrow>
   length (filter (\<lambda>t. TestDefinition.name t = n) tbl) = 1"
proof (induction tbl)
  case Nil
  then show ?case by simp
next
  case (Cons t tbl)
  show ?case
  proof (cases "TestDefinition.name t = n")
    case True
    with Cons.prems(1) have "n \<notin> TestDefinition.name ` set tbl"
      by simp
    then have "filter (\<lambda>t. TestDefinition.name t = n) tbl = []"
      by (auto simp: filter_empty_conv)
    with True show ?thesis by simp
  next
    case False
    with Cons show ?thesis by auto
  qed
qed

text \<open>
  C9. Seeding is idempotent: a second run of the seeding step changes nothing, and when
  the table respects the unique constraint on names before the first run, the table
  afterwards holds exactly one row for each name of the seeded list and no two rows
  with the same name.
\<close>

theorem populate_test_definitions_idempotent:
  assumes "distinct (map TestDefinition.name (test_definitions db))"
  shows "populate_test_definitions (populate_test_definitions db) = populate_test_definitions db
    \<and> (\<forall>n \<in> fst ` set test_defs.
         length (filter (\<lambda>t. TestDefinition.name t = n)
           (test_definitions (populate_test_definitions (populate_test_definitions db)))) = 1)
    \<and> distinct (map TestDefinition.name
         (test_definitions (populate_test_definitions (populate_test_definitions db))))"
proof -
  let ?tbl = "populate_loop test_defs (test_definitions db)"
  have twice: "populate_test_definitions (populate_test_definitions db) = populate_test_definitions db"
    by (simp add: populate_test_definitions_def populate_loop_twice)
  have tbl: "test_definitions (populate_test_definitions db) = ?tbl"
    by (simp add: populate_test_definitions_def)
  from assms have d: "distinct (map TestDefinition.name ?tbl)"
    by (rule populate_loop_distinct)
  have "\<forall>n \<in> fst ` set test_defs. length (filter (\<lambda>t. TestDefinition.name t = n) ?tbl) = 1"
  proof
    fix n assume "n \<in> fst ` set test_defs"
    then have "n \<in> TestDefinition.name ` set ?tbl"
      by (simp add: populate_loop_names)
    with d show "length (filter (\<lambda>t. TestDefinition.name t = n) ?tbl) = 1"
      by (rule distinct_names_count)
  qed
  with twice tbl d show ?thesis by simp
qed

theorem populate_test_definitions_idempotent_witness:
  "distinct (map TestDefinition.name (test_definitions empty_db))
   \<and> ''SQL Injection Testing'' \<in> fst ` set test_defs
   \<and> populate_test_definitions (populate_test_definitions empty_db)
       = populate_test_definitions empty_db
   \<and> length (filter (\<lambda>t. TestDefinition.name t = ''SQL Injection Testing'')
         (test_definitions (populate_test_definitions (populate_test_definitions empty_db)))) = 1"
proof -
  have d: "distinct (map TestDefinition.name (test_definitions empty_db))"
    by (simp add: empty_db_def)
  have m: "''SQL Injection Testing'' \<in> fst ` set test_defs"
    by (simp add: test_defs_def)
  from populate_test_definitions_idempotent [OF d] d m show ?thesis
    by blast
qed

section \<open>The SSL/TLS check\<close>

text \<open>
  C3, as amended. The HTTPS-enforcement probe decides as follows. When the request
  returns a response whose status code is a 4xx or 5xx code, the outcome is INFO; when
  it returns any other response, the outcome is PASSED if the scheme of the final URL
  is https and VULNERABLE otherwise. An SSL error gives VULNERABLE; a timeout, a
  connection error and every other exception of the request layer give INFO. In all
  these cases the status is COMPLETED. Any other exception gives NOT_RUN with status
  ERROR.
\<close>

theorem ssl_tls_decision_table:
  "(final_status (execute_test_logic env ''Cryptography and SSL/TLS Testing'' u),
    outcome (execute_test_logic env ''Cryptography and SSL/TLS Testing'' u)) =
   (case requests_get env of
      Inr response \<Rightarrow>
        if 400 \<le> status_code response \<and> status_code response < 600 then (COMPLETED, INFO)
        else if urlparse_scheme env (Response.url response) = ''https'' then (COMPLETED, PASSED)
        else (COMPLETED, VULNERABLE)
    | Inl e \<Rightarrow>
        if is_SSLError e then (COMPLETED, VULNERABLE)
        else if is_Timeout e \<or> is_ConnectionError e \<or> is_RequestException e then (COMPLETED, INFO)
        else (ERROR, NOT_RUN))"
  by (simp add: execute_test_logic_def test_logic_body_def ssl_tls_check_def ssl_tls_request_def
        raise_for_status_def Let_def split: sum.splits)

text \<open>
  C3 as stated fails: a response with status 404 whose final URL has the scheme https
  gives the outcome INFO, not PASSED.
\<close>

theorem https_not_passed_counterexample:
  "requests_get env_404 = Inr response_404
   \<and> urlparse_scheme env_404 (Response.url response_404) = ''https''
   \<and> outcome (execute_test_logic env_404 ''Cryptography and SSL/TLS Testing''
        ''https://example.com/missing'') = INFO
   \<and> outcome (execute_test_logic env_404 ''Cryptography and SSL/TLS Testing''
        ''https://example.com/missing'') \<noteq> PASSED"
  by (simp add: env_404_def response_404_def execute_test_logic_def test_logic_body_def
        ssl_tls_check_def ssl_tls_request_def raise_for_status_def)

text \<open>
  C10. When the request of the HTTPS-enforcement probe returns a response with a 4xx or
  5xx status code, \<^verbatim>\<open>raise_for_status\<close> raises before the scheme is looked at, and the
  probe gives the outcome INFO with status COMPLETED whatever the scheme of the final
  URL; so an outcome PASSED or VULNERABLE for a response means that its status code is
  not an error code.
\<close>

theorem http_error_status_is_info:
  assumes "requests_get env = Inr response"
  shows "(400 \<le> status_code response \<and> status_code response < 600 \<longrightarrow>
            ssl_tls_request env u = Inl (HTTPError (http_error_text response))
          \<and> final_status (execute_test_logic env ''Cryptography and SSL/TLS Testing'' u) = COMPLETED
          \<and> outcome (execute_test_logic env ''Cryptography and SSL/TLS Testing'' u) = INFO)
       \<and> (outcome (execute_test_logic env ''Cryptography and SSL/TLS Testing'' u) \<in> {PASSED, VULNERABLE} \<longrightarrow>
            \<not> (400 \<le> status_code response \<and> status_code response < 600))"
  using assms
  by (simp add: execute_test_logic_def test_logic_body_def ssl_tls_check_def ssl_tls_request_def
        raise_for_status_def Let_def)

theorem http_error_status_is_info_witness:
  "requests_get env_404 = Inr response_404
   \<and> 400 \<le> status_code response_404 \<and> status_code response_404 < 600
   \<and> final_status (execute_test_logic env_404 ''Cryptography and SSL/TLS Testing''
        ''http://example.com'') = COMPLETED
   \<and> outcome (execute_test_logic env_404 ''Cryptography and SSL/TLS Testing''
        ''http://example.com'') = INFO"
proof -
  have g: "requests_get env_404 = Inr response_404"
    by (simp add: env_404_def)
  have c: "400 \<le> status_code response_404 \<and> status_code response_404 < 600"
    by (simp add: response_404_def)
  from http_error_status_is_info [OF g, of "''http://example.com''"] g c show ?thesis
    by blast
qed

section \<open>One test unit\<close>

lemma mark_in_progress_Some:
  assumes "mark_in_progress i fault now db = (db1, Some test_name)"
  shows "fault = None"
    and "\<exists>r. find (\<lambda>r. ScanResult.id r = i) (scan_results db) = Some r"
    and "db1 = db\<lparr>scan_results :=
            map (\<lambda>r. if ScanResult.id r = i
                      then r\<lparr>ScanResult.status := IN_PROGRESS, started_at := Some now\<rparr> else r)
                (scan_results db)\<rparr>"
  using assms by (auto simp: mark_in_progress_def split: option.splits)

lemma find_id_map:
  assumes "\<And>r. ScanResult.id (g r) = ScanResult.id r"
  shows "find (\<lambda>r. ScanResult.id r = i) (map g rows) =
         map_option g (find (\<lambda>r. ScanResult.id r = i) rows)"
  using assms by (induction rows) auto

lemma mark_in_progress_row:
  assumes "mark_in_progress i fault now db = (db1, Some test_name)"
  shows "(\<exists>r \<in> set (scan_results db1). ScanResult.id r = i)
       \<and> (\<forall>r \<in> set (scan_results db1). ScanResult.id r = i \<longrightarrow> ScanResult.status r = IN_PROGRESS)"
proof -
  from mark_in_progress_Some(2) [OF assms] obtain r0
    where "find (\<lambda>r. ScanResult.id r = i) (scan_results db) = Some r0" by blast
  then have "r0 \<in> set (scan_results db)" "ScanResult.id r0 = i"
    by (auto simp: find_Some_iff)
  with mark_in_progress_Some(3) [OF assms] show ?thesis
    by (auto intro!: bexI [of _ "r0\<lparr>ScanResult.status := IN_PROGRESS, started_at := Some now\<rparr>"]
             simp: image_iff)
qed

lemma update_final_results_row:
  assumes "\<exists>r \<in> set (scan_results db). ScanResult.id r = i"
  shows "(\<exists>r \<in> set (scan_results (update_final_results i v None now db)). ScanResult.id r = i)
       \<and> (\<forall>r \<in> set (scan_results (update_final_results i v None now db)). ScanResult.id r = i \<longrightarrow>
             ScanResult.status r = final_status v \<and> ScanResult.result r = outcome v)"
proof -
  let ?g = "\<lambda>r. if ScanResult.id r = i
                then r\<lparr>ScanResult.status := final_status v, result := outcome v,
                       summary := Some (summary_text v), details := details_text v,
                       recommendations := recommendations_text v,
                       ScanResult.completed_at := Some now\<rparr>
                else r"
  from assms have "find (\<lambda>r. ScanResult.id r = i) (scan_results db) \<noteq> None"
    by (auto simp: find_None_iff)
  then have rows: "scan_results (update_final_results i v None now db) = map ?g (scan_results db)"
    by (auto simp: update_final_results_def)
  from assms obtain r1 where r1: "r1 \<in> set (scan_results db)" "ScanResult.id r1 = i"
    by blast
  from r1(1) have "?g r1 \<in> ?g ` set (scan_results db)" by (rule imageI)
  then have "?g r1 \<in> set (map ?g (scan_results db))" by (simp only: set_map)
  moreover have "ScanResult.id (?g r1) = i" using r1 by simp
  ultimately have ex: "\<exists>r \<in> set (map ?g (scan_results db)). ScanResult.id r = i"
    by blast
  have all: "\<forall>r \<in> set (map ?g (scan_results db)). ScanResult.id r = i \<longrightarrow>
             ScanResult.status r = final_status v \<and> ScanResult.result r = outcome v"
  proof (intro ballI impI)
    fix r assume "r \<in> set (map ?g (scan_results db))" and i: "ScanResult.id r = i"
    then obtain r0 where r0: "r = ?g r0"
      unfolding set_map by (elim imageE)
    have "ScanResult.id (?g r0) = ScanResult.id r0" by simp
    with r0 i have "ScanResult.id r0 = i" by simp
    with r0 show "ScanResult.status r = final_status v \<and> ScanResult.result r = outcome v"
      by simp
  qed
  from ex all show ?thesis unfolding rows by blast
qed

text \<open>
  C4, as amended. When the begin step of a unit has succeeded and the test logic raises
  an exception, the handler turns it into status ERROR and outcome NOT_RUN and the
  unit goes on to its final write, so the exception does not leave the unit. When the
  final transaction commits, the ScanResult of the unit has status ERROR and outcome
  NOT_RUN; when the final transaction fails, the store stays as the begin step left
  it, with the ScanResult IN_PROGRESS.
\<close>

theorem probe_exception_becomes_error:
  assumes "mark_in_progress i (begin_fault env) (begin_now env) db = (db1, Some test_name)"
    and "test_logic_body env test_name u = Inl e"
  shows "final_status (execute_test_logic env test_name u) = ERROR
       \<and> outcome (execute_test_logic env test_name u) = NOT_RUN
       \<and> (finish_fault env = None \<longrightarrow>
            (\<exists>r \<in> set (scan_results (run_single_test i u env db)). ScanResult.id r = i)
          \<and> (\<forall>r \<in> set (scan_results (run_single_test i u env db)). ScanResult.id r = i \<longrightarrow>
                ScanResult.status r = ERROR \<and> ScanResult.result r = NOT_RUN))
       \<and> (finish_fault env \<noteq> None \<longrightarrow> run_single_test i u env db = db1)"
proof -
  have v: "final_status (execute_test_logic env test_name u) = ERROR"
          "outcome (execute_test_logic env test_name u) = NOT_RUN"
    using assms(2) by (simp_all add: execute_test_logic_def)
  have run: "run_single_test i u env db =
      update_final_results i (execute_test_logic env test_name u) (finish_fault env) (finish_now env) db1"
    using assms(1) by (simp add: run_single_test_def)
  from mark_in_progress_row [OF assms(1)]
  have ex: "\<exists>r \<in> set (scan_results db1). ScanResult.id r = i" by blast
  have ok: "finish_fault env = None \<longrightarrow>
            (\<exists>r \<in> set (scan_results (run_single_test i u env db)). ScanResult.id r = i)
          \<and> (\<forall>r \<in> set (scan_results (run_single_test i u env db)). ScanResult.id r = i \<longrightarrow>
                ScanResult.status r = ERROR \<and> ScanResult.result r = NOT_RUN)"
    using update_final_results_row [OF ex, of "execute_test_logic env test_name u" "finish_now env"] v
    by (simp add: run)
  have bad: "finish_fault env \<noteq> None \<longrightarrow> run_single_test i u env db = db1"
    by (auto simp: run update_final_results_def)
  from v ok bad show ?thesis by blast
qed

lemma small_begin:
  "mark_in_progress 1 (begin_fault (env_raising f)) (begin_now (env_raising f)) small_db =
     (small_db\<lparr>scan_results := [\<lparr>ScanResult.id = 1, scan_id = 1, test_definition_id = 1,
                    status = IN_PROGRESS, result = NOT_RUN, summary = None, details = None,
                    recommendations = None, started_at = Some 1, completed_at = None\<rparr>]\<rparr>,
      Some ''Cryptography and SSL/TLS Testing'')"
  by (simp add: mark_in_progress_def small_db_def env_raising_def)

lemma small_raise:
  "test_logic_body (env_raising f) ''Cryptography and SSL/TLS Testing'' ''http://example.com''
     = Inl (OtherException ''unexpected'')"
  by (simp add: test_logic_body_def ssl_tls_check_def ssl_tls_request_def env_raising_def)

text \<open>
  C4 as stated fails: the begin step succeeds, the test logic raises, the final
  transaction fails, and the ScanResult remains IN_PROGRESS.
\<close>

theorem result_stays_in_progress_counterexample:
  "mark_in_progress 1 (begin_fault (env_raising (Some ''store down'')))
       (begin_now (env_raising (Some ''store down''))) small_db
     = (small_db\<lparr>scan_results := [\<lparr>ScanResult.id = 1, scan_id = 1, test_definition_id = 1,
                    status = IN_PROGRESS, result = NOT_RUN, summary = None, details = None,
                    recommendations = None, started_at = Some 1, completed_at = None\<rparr>]\<rparr>,
        Some ''Cryptography and SSL/TLS Testing'')
   \<and> test_logic_body (env_raising (Some ''store down'')) ''Cryptography and SSL/TLS Testing''
        ''http://example.com'' = Inl (OtherException ''unexpected'')
   \<and> map ScanResult.status (scan_results
        (run_single_test 1 ''http://example.com'' (env_raising (Some ''store down'')) small_db))
      = [IN_PROGRESS]"
proof -
  have "run_single_test 1 ''http://example.com'' (env_raising (Some ''store down'')) small_db
      = small_db\<lparr>scan_results := [\<lparr>ScanResult.id = 1, scan_id = 1, test_definition_id = 1,
                    status = IN_PROGRESS, result = NOT_RUN, summary = None, details = None,
                    recommendations = None, started_at = Some 1, completed_at = None\<rparr>]\<rparr>"
    unfolding run_single_test_def small_begin
    by (simp add: update_final_results_def env_raising_def)
  then show ?thesis
    using small_begin [of "Some ''store down''"] small_raise [of "Some ''store down''"] by simp
qed

theorem probe_exception_becomes_error_witness:
  "test_logic_body (env_raising None) ''Cryptography and SSL/TLS Testing'' ''http://example.com''
      = Inl (OtherException ''unexpected'')
   \<and> finish_fault (env_raising None) = None
   \<and> (\<exists>r \<in> set (scan_results (run_single_test 1 ''http://example.com'' (env_raising None) small_db)).
         ScanResult.id r = 1 \<and> ScanResult.status r = ERROR \<and> ScanResult.result r = NOT_RUN)"
proof -
  have f: "finish_fault (env_raising None) = None"
    by (simp add: env_raising_def)
  from probe_exception_becomes_error [OF small_begin small_raise] f small_raise
  show ?thesis by blast
qed

section \<open>The coordinator\<close>

lemma check_results_status:
  "fst (check_results rs (COMPLETED, acc)) =
     (if \<forall>r \<in> set rs. ScanResult.status r = COMPLETED then COMPLETED else ERROR)"
  by (induction rs) auto

lemma check_results_flag:
  "snd (check_results rs (COMPLETED, acc)) \<Longrightarrow> acc"
  by (induction rs) (auto split: if_splits)

lemma check_results_flag_completed:
  "\<forall>r \<in> set rs. ScanResult.status r = COMPLETED \<Longrightarrow>
   snd (check_results rs (COMPLETED, acc)) = acc"
  by (induction rs) auto

lemma final_status_value:
  "(if \<not> snd (check_results rs (COMPLETED, length rs = n)) then ERROR
    else fst (check_results rs (COMPLETED, length rs = n)))
   = (if (\<exists>r \<in> set rs. ScanResult.status r = ERROR) \<or> length rs \<noteq> n
         \<or> (\<exists>r \<in> set rs. ScanResult.status r \<noteq> COMPLETED)
      then ERROR else COMPLETED)"
proof (cases "\<forall>r \<in> set rs. ScanResult.status r = COMPLETED")
  case True
  then show ?thesis
    by (auto simp: check_results_status check_results_flag_completed)
next
  case False
  then show ?thesis
    by (auto simp: check_results_status)
qed

lemma updated_row_exists:
  assumes "x \<in> set xs" and "key x = k" and "\<And>y. key (g y) = key y"
  shows "\<exists>y \<in> set (map (\<lambda>y. if key y = k then g y else y) xs). key y = k"
proof -
  from assms(1) have "(if key x = k then g x else x) \<in> set (map (\<lambda>y. if key y = k then g y else y) xs)"
    by (induction xs) auto
  with assms(2,3) show ?thesis by (intro bexI [of _ "g x"]) auto
qed

lemma updated_row_origin:
  assumes "y \<in> set (map (\<lambda>y. if key y = k then g y else y) xs)" and "key y = k"
    and "\<And>y. key (g y) = key y"
  shows "\<exists>x \<in> set xs. key x = k \<and> y = g x"
proof -
  from assms(1) obtain x where x: "x \<in> set xs" "y = (if key x = k then g x else x)"
    by auto
  with assms(2,3) have "key x = k" by (auto split: if_splits)
  with x show ?thesis by auto
qed

text \<open>
  C1. When the final aggregation step runs for a scan that the store holds, it leaves
  the results as they are and sets the status of the Scan to ERROR if one of the
  results reloaded for the scan has status ERROR, or the number of results reloaded
  differs from the number of units launched, or one of the results has a status other
  than COMPLETED; otherwise it sets the status to COMPLETED. In both cases it sets
  \<^verbatim>\<open>completed_at\<close>.
\<close>

theorem final_scan_update_status:
  assumes "find (\<lambda>s. Scan.id s = sid) (scans db) = Some sc"
  shows "scan_results (final_scan_update sid ids now db) = scan_results db
    \<and> (\<exists>s \<in> set (scans (final_scan_update sid ids now db)). Scan.id s = sid)
    \<and> (\<forall>s \<in> set (scans (final_scan_update sid ids now db)). Scan.id s = sid \<longrightarrow>
          Scan.status s =
            (if (\<exists>r \<in> set (filter (\<lambda>r. ScanResult.scan_id r = sid) (scan_results db)).
                   ScanResult.status r = ERROR)
                \<or> length (filter (\<lambda>r. ScanResult.scan_id r = sid) (scan_results db)) \<noteq> length ids
                \<or> (\<exists>r \<in> set (filter (\<lambda>r. ScanResult.scan_id r = sid) (scan_results db)).
                   ScanResult.status r \<noteq> COMPLETED)
             then ERROR else COMPLETED)
          \<and> Scan.completed_at s = Some now)"
proof -
  let ?rs = "filter (\<lambda>r. ScanResult.scan_id r = sid) (scan_results db)"
  define final where "final =
     (if (\<exists>r \<in> set ?rs. ScanResult.status r = ERROR) \<or> length ?rs \<noteq> length ids
         \<or> (\<exists>r \<in> set ?rs. ScanResult.status r \<noteq> COMPLETED)
      then ERROR else COMPLETED)"
  let ?g = "\<lambda>s. s\<lparr>Scan.status := final, Scan.completed_at := Some now\<rparr>"
  from assms have sc: "sc \<in> set (scans db)" "Scan.id sc = sid"
    by (auto simp: find_Some_iff)
  have upd: "final_scan_update sid ids now db =
      db\<lparr>scans := map (\<lambda>s. if Scan.id s = sid then ?g s else s) (scans db)\<rparr>"
    using assms sc(2) final_status_value [of ?rs "length ids"]
    by (simp add: final_scan_update_def Let_def final_def)
  have keep: "\<And>s. Scan.id (?g s) = Scan.id s" by simp
  have ex: "\<exists>s \<in> set (scans (final_scan_update sid ids now db)). Scan.id s = sid"
    unfolding upd using updated_row_exists [of sc "scans db" Scan.id sid ?g, OF sc keep]
    by simp
  have all: "\<forall>s \<in> set (scans (final_scan_update sid ids now db)). Scan.id s = sid \<longrightarrow>
          Scan.status s = final \<and> Scan.completed_at s = Some now"
  proof (intro ballI impI)
    fix s assume "s \<in> set (scans (final_scan_update sid ids now db))" and "Scan.id s = sid"
    then have "s \<in> set (map (\<lambda>s. if Scan.id s = sid then ?g s else s) (scans db))"
      by (simp add: upd)
    from updated_row_origin [of s Scan.id sid ?g "scans db", OF this \<open>Scan.id s = sid\<close> keep]
    obtain x where "s = ?g x" by blast
    then show "Scan.status s = final \<and> Scan.completed_at s = Some now" by simp
  qed
  have "scan_results (final_scan_update sid ids now db) = scan_results db"
    by (simp add: upd)
  with ex all show ?thesis unfolding final_def by blast
qed


theorem final_scan_update_status_witness:
  "find (\<lambda>s. Scan.id s = 1) (scans done_db) = Some (hd (scans done_db))
   \<and> (\<exists>s \<in> set (scans (final_scan_update 1 [1] 9 done_db)).
          Scan.id s = 1 \<and> Scan.status s = COMPLETED \<and> Scan.completed_at s = Some 9)"
proof -
  have f: "find (\<lambda>s. Scan.id s = 1) (scans done_db) = Some (hd (scans done_db))"
    by (simp add: done_db_def small_db_def)
  have c: "(if (\<exists>r \<in> set (filter (\<lambda>r. ScanResult.scan_id r = 1) (scan_results done_db)).
                   ScanResult.status r = ERROR)
                \<or> length (filter (\<lambda>r. ScanResult.scan_id r = 1) (scan_results done_db)) \<noteq> length [1::nat]
                \<or> (\<exists>r \<in> set (filter (\<lambda>r. ScanResult.scan_id r = 1) (scan_results done_db)).
                   ScanResult.status r \<noteq> COMPLETED)
            then ERROR else COMPLETED) = COMPLETED"
    by (simp add: done_db_def)
  from final_scan_update_status [OF f, of "[1]" 9] f show ?thesis
    unfolding c by blast
qed

lemma mark_scan_error_rows:
  assumes "find (\<lambda>s. Scan.id s = sid) (scans db) = Some sc"
  shows "(\<exists>s \<in> set (scans (mark_scan_error sid now db)). Scan.id s = sid)
       \<and> (\<forall>s \<in> set (scans (mark_scan_error sid now db)). Scan.id s = sid \<longrightarrow>
             Scan.status s = ERROR \<and> Scan.completed_at s = Some now)"
proof -
  let ?g = "\<lambda>s. s\<lparr>Scan.status := ERROR, Scan.completed_at := Some now\<rparr>"
  from assms have sc: "sc \<in> set (scans db)" "Scan.id sc = sid"
    by (auto simp: find_Some_iff)
  have upd: "scans (mark_scan_error sid now db) =
      map (\<lambda>s. if Scan.id s = sid then ?g s else s) (scans db)"
    using assms by (simp add: mark_scan_error_def)
  have keep: "\<And>s. Scan.id (?g s) = Scan.id s" by simp
  have ex: "\<exists>s \<in> set (scans (mark_scan_error sid now db)). Scan.id s = sid"
    unfolding upd using updated_row_exists [of sc "scans db" Scan.id sid ?g, OF sc keep]
    by simp
  have all: "\<forall>s \<in> set (scans (mark_scan_error sid now db)). Scan.id s = sid \<longrightarrow>
          Scan.status s = ERROR \<and> Scan.completed_at s = Some now"
  proof (intro ballI impI)
    fix s assume "s \<in> set (scans (mark_scan_error sid now db))" and i: "Scan.id s = sid"
    then have "s \<in> set (map (\<lambda>s. if Scan.id s = sid then ?g s else s) (scans db))"
      by (simp only: upd)
    from updated_row_origin [of s Scan.id sid ?g "scans db", OF this i keep]
    obtain x where "s = ?g x" by blast
    then show "Scan.status s = ERROR \<and> Scan.completed_at s = Some now" by simp
  qed
  from ex all show ?thesis by blast
qed

text \<open>
  C7. When the fetch of the id list raises, the coordinator launches no unit and ends
  there, no row of \<^verbatim>\<open>scan_results\<close> is changed, and the Scan has status ERROR with
  \<^verbatim>\<open>completed_at\<close> set.
\<close>

theorem fetch_failure_marks_scan_error:
  assumes "fetch_fault env = Some e"
    and "find (\<lambda>s. Scan.id s = sid) (scans db) = Some sc"
  shows "snd (start_tests sid (fetch_fault env) (scan_now env) db) = []
    \<and> run_all_tests_for_scan sid u env db = fst (start_tests sid (fetch_fault env) (scan_now env) db)
    \<and> scan_results (run_all_tests_for_scan sid u env db) = scan_results db
    \<and> (\<exists>s \<in> set (scans (run_all_tests_for_scan sid u env db)). Scan.id s = sid)
    \<and> (\<forall>s \<in> set (scans (run_all_tests_for_scan sid u env db)). Scan.id s = sid \<longrightarrow>
          Scan.status s = ERROR \<and> Scan.completed_at s = Some (scan_now env))"
proof -
  have run: "run_all_tests_for_scan sid u env db = mark_scan_error sid (scan_now env) db"
    using assms(1) by (simp add: run_all_tests_for_scan_def fetch_scan_result_ids_def)
  have st: "start_tests sid (fetch_fault env) (scan_now env) db =
            (mark_scan_error sid (scan_now env) db, [])"
    using assms(1) by (simp add: start_tests_def fetch_scan_result_ids_def)
  have rows: "scan_results (mark_scan_error sid (scan_now env) db) = scan_results db"
    by (simp add: mark_scan_error_def split: option.splits)
  from mark_scan_error_rows [OF assms(2), of "scan_now env"] run st rows
  show ?thesis by simp
qed

theorem fetch_failure_marks_scan_error_witness:
  "fetch_fault (scan_env_with (Some ''store down'')) = Some ''store down''
   \<and> find (\<lambda>s. Scan.id s = 1) (scans small_db) = Some (hd (scans small_db))
   \<and> snd (start_tests 1 (fetch_fault (scan_env_with (Some ''store down'')))
         (scan_now (scan_env_with (Some ''store down''))) small_db) = []
   \<and> scan_results (run_all_tests_for_scan 1 ''http://example.com''
         (scan_env_with (Some ''store down'')) small_db) = scan_results small_db
   \<and> (\<exists>s \<in> set (scans (run_all_tests_for_scan 1 ''http://example.com''
         (scan_env_with (Some ''store down'')) small_db)).
          Scan.id s = 1 \<and> Scan.status s = ERROR \<and> Scan.completed_at s = Some 9)"
proof -
  have f: "fetch_fault (scan_env_with (Some ''store down'')) = Some ''store down''"
    by (simp add: scan_env_with_def)
  have n: "scan_now (scan_env_with (Some ''store down'')) = 9"
    by (simp add: scan_env_with_def)
  have s: "find (\<lambda>s. Scan.id s = 1) (scans small_db) = Some (hd (scans small_db))"
    by (simp add: small_db_def)
  from fetch_failure_marks_scan_error [OF f s, of "''http://example.com''"] f s n
  show ?thesis by metis
qed


lemma mark_scan_without_tests_rows:
  assumes "find (\<lambda>s. Scan.id s = sid) (scans db) = Some sc" and "Scan.status sc = PENDING"
  shows "(\<exists>s \<in> set (scans (mark_scan_without_tests sid now db)). Scan.id s = sid)
       \<and> (\<forall>s \<in> set (scans (mark_scan_without_tests sid now db)). Scan.id s = sid \<longrightarrow>
             Scan.status s = COMPLETED \<and> Scan.completed_at s = Some now)"
proof -
  let ?g = "\<lambda>s. s\<lparr>Scan.status := COMPLETED, Scan.completed_at := Some now\<rparr>"
  from assms(1) have sc: "sc \<in> set (scans db)" "Scan.id sc = sid"
    by (auto simp: find_Some_iff)
  have upd: "scans (mark_scan_without_tests sid now db) =
      map (\<lambda>s. if Scan.id s = sid then ?g s else s) (scans db)"
    using assms by (simp add: mark_scan_without_tests_def)
  have keep: "\<And>s. Scan.id (?g s) = Scan.id s" by simp
  have ex: "\<exists>s \<in> set (scans (mark_scan_without_tests sid now db)). Scan.id s = sid"
    unfolding upd using updated_row_exists [of sc "scans db" Scan.id sid ?g, OF sc keep]
    by simp
  have all: "\<forall>s \<in> set (scans (mark_scan_without_tests sid now db)). Scan.id s = sid \<longrightarrow>
          Scan.status s = COMPLETED \<and> Scan.completed_at s = Some now"
  proof (intro ballI impI)
    fix s assume "s \<in> set (scans (mark_scan_without_tests sid now db))" and i: "Scan.id s = sid"
    then have "s \<in> set (map (\<lambda>s. if Scan.id s = sid then ?g s else s) (scans db))"
      by (simp only: upd)
    from updated_row_origin [of s Scan.id sid ?g "scans db", OF this i keep]
    obtain x where "s = ?g x" by blast
    then show "Scan.status s = COMPLETED \<and> Scan.completed_at s = Some now" by simp
  qed
  from ex all show ?thesis by blast
qed

text \<open>
  C2, as amended. When the id list of the scan is empty, the coordinator launches no
  unit and ends there with the results unchanged; a Scan that is still PENDING gets
  status COMPLETED with \<^verbatim>\<open>completed_at\<close> set, and a Scan with any other status is left as
  it is.
\<close>

theorem scan_without_results_completed:
  assumes "fetch_fault env = None"
    and "filter (\<lambda>r. ScanResult.scan_id r = sid) (scan_results db) = []"
    and "find (\<lambda>s. Scan.id s = sid) (scans db) = Some sc"
  shows "snd (start_tests sid (fetch_fault env) (scan_now env) db) = []
    \<and> run_all_tests_for_scan sid u env db = fst (start_tests sid (fetch_fault env) (scan_now env) db)
    \<and> scan_results (run_all_tests_for_scan sid u env db) = scan_results db
    \<and> (Scan.status sc = PENDING \<longrightarrow>
          (\<exists>s \<in> set (scans (run_all_tests_for_scan sid u env db)). Scan.id s = sid)
        \<and> (\<forall>s \<in> set (scans (run_all_tests_for_scan sid u env db)). Scan.id s = sid \<longrightarrow>
              Scan.status s = COMPLETED \<and> Scan.completed_at s = Some (scan_now env)))
    \<and> (Scan.status sc \<noteq> PENDING \<longrightarrow> run_all_tests_for_scan sid u env db = db)"
proof -
  have run: "run_all_tests_for_scan sid u env db = mark_scan_without_tests sid (scan_now env) db"
    using assms(1,2) by (simp add: run_all_tests_for_scan_def fetch_scan_result_ids_def)
  have st: "start_tests sid (fetch_fault env) (scan_now env) db =
            (mark_scan_without_tests sid (scan_now env) db, [])"
    using assms(1,2) by (simp add: start_tests_def fetch_scan_result_ids_def)
  have rows: "scan_results (mark_scan_without_tests sid (scan_now env) db) = scan_results db"
    by (simp add: mark_scan_without_tests_def split: option.splits)
  have other: "Scan.status sc \<noteq> PENDING \<longrightarrow> mark_scan_without_tests sid (scan_now env) db = db"
    using assms(3) by (simp add: mark_scan_without_tests_def)
  from mark_scan_without_tests_rows [OF assms(3), of "scan_now env"] run st rows other
  show ?thesis by simp
qed

text \<open>
  C2 as stated fails: a pending scan without results ends COMPLETED, not ERROR.
\<close>

theorem empty_scan_not_error_counterexample:
  "fetch_scan_result_ids 1 (fetch_fault (scan_env_with None)) no_results_db = Inr []
   \<and> map Scan.status (scans no_results_db) = [PENDING]
   \<and> map Scan.status (scans (run_all_tests_for_scan 1 ''http://example.com''
         (scan_env_with None) no_results_db)) = [COMPLETED]"
  by (simp add: fetch_scan_result_ids_def scan_env_with_def no_results_db_def small_db_def
        run_all_tests_for_scan_def mark_scan_without_tests_def)

theorem scan_without_results_completed_witness:
  "fetch_fault (scan_env_with None) = None
   \<and> filter (\<lambda>r. ScanResult.scan_id r = 1) (scan_results no_results_db) = []
   \<and> find (\<lambda>s. Scan.id s = 1) (scans no_results_db) = Some (hd (scans no_results_db))
   \<and> Scan.status (hd (scans no_results_db)) = PENDING
   \<and> snd (start_tests 1 (fetch_fault (scan_env_with None)) (scan_now (scan_env_with None))
          no_results_db) = []
   \<and> (\<exists>s \<in> set (scans (run_all_tests_for_scan 1 ''http://example.com''
          (scan_env_with None) no_results_db)).
          Scan.id s = 1 \<and> Scan.status s = COMPLETED \<and> Scan.completed_at s = Some 9)"
proof -
  have f: "fetch_fault (scan_env_with None) = None"
    by (simp add: scan_env_with_def)
  have n: "scan_now (scan_env_with None) = 9"
    by (simp add: scan_env_with_def)
  have r: "filter (\<lambda>r. ScanResult.scan_id r = 1) (scan_results no_results_db) = []"
    by (simp add: no_results_db_def)
  have s: "find (\<lambda>s. Scan.id s = 1) (scans no_results_db) = Some (hd (scans no_results_db))"
    by (simp add: no_results_db_def small_db_def)
  have p: "Scan.status (hd (scans no_results_db)) = PENDING"
    by (simp add: no_results_db_def small_db_def)
  from scan_without_results_completed [OF f r s, of "''http://example.com''"] f r s p n
  show ?thesis by metis
qed

section \<open>Creating a scan\<close>

lemma add_scan_results_append:
  "\<exists>new. add_scan_results sid tests tbl = tbl @ new
      \<and> map ScanResult.test_definition_id new = map TestDefinition.id tests
      \<and> list_all (\<lambda>r. ScanResult.scan_id r = sid \<and> ScanResult.status r = PENDING
                      \<and> ScanResult.result r = NOT_RUN) new
      \<and> (distinct (map ScanResult.id tbl) \<longrightarrow> distinct (map ScanResult.id (tbl @ new)))"
proof (induction tests arbitrary: tbl)
  case Nil
  show ?case by simp
next
  case (Cons test_def rest)
  let ?row = "\<lparr>ScanResult.id = next_id (map ScanResult.id tbl), scan_id = sid,
                test_definition_id = TestDefinition.id test_def,
                status = PENDING, result = NOT_RUN,
                summary = None, details = None, recommendations = None,
                started_at = None, completed_at = None\<rparr>"
  from Cons.IH [of "tbl @ [?row]"] obtain new where new:
    "add_scan_results sid rest (tbl @ [?row]) = (tbl @ [?row]) @ new"
    "map ScanResult.test_definition_id new = map TestDefinition.id rest"
    "list_all (\<lambda>r. ScanResult.scan_id r = sid \<and> ScanResult.status r = PENDING
                      \<and> ScanResult.result r = NOT_RUN) new"
    "distinct (map ScanResult.id (tbl @ [?row])) \<longrightarrow> distinct (map ScanResult.id ((tbl @ [?row]) @ new))"
    by blast
  have fresh: "distinct (map ScanResult.id tbl) \<longrightarrow> distinct (map ScanResult.id (tbl @ [?row]))"
    using next_id_fresh [of "map ScanResult.id tbl"] by simp
  show ?case
  proof (intro exI [of _ "?row # new"] conjI)
    show "add_scan_results sid (test_def # rest) tbl = tbl @ ?row # new"
      using new(1) by simp
    show "map ScanResult.test_definition_id (?row # new) = map TestDefinition.id (test_def # rest)"
      using new(2) by simp
    show "list_all (\<lambda>r. ScanResult.scan_id r = sid \<and> ScanResult.status r = PENDING
                      \<and> ScanResult.result r = NOT_RUN) (?row # new)"
      using new(3) by simp
    show "distinct (map ScanResult.id tbl) \<longrightarrow> distinct (map ScanResult.id (tbl @ ?row # new))"
      using new(4) fresh by simp
  qed
qed

lemma find_or_create_website_frame:
  "test_definitions (snd (find_or_create_website u now db)) = test_definitions db"
  "scans (snd (find_or_create_website u now db)) = scans db"
  "scan_results (snd (find_or_create_website u now db)) = scan_results db"
  by (simp_all add: find_or_create_website_def Let_def split: option.splits)

lemma find_in_append:
  "find P (xs @ ys) = (case find P xs of None \<Rightarrow> find P ys | Some x \<Rightarrow> Some x)"
  by (induction xs) auto

lemma find_new_scan:
  "find (\<lambda>s. Scan.id s = next_id (map Scan.id tbl)) (tbl @ [row]) =
     (if Scan.id row = next_id (map Scan.id tbl) then Some row else None)"
proof -
  have "find (\<lambda>s. Scan.id s = next_id (map Scan.id tbl)) tbl = None"
    using next_id_fresh [of "map Scan.id tbl"] by (force simp: find_None_iff)
  then show ?thesis by (simp add: find_in_append)
qed

lemma start_scan_success:
  assumes "snd (start_scan url_to_scan fault now db) = Inr (response, task)"
  shows "fault = None" and "test_definitions db \<noteq> []"
    and "task = (next_id (map Scan.id (scans db)), url_to_scan)"
    and "scan response = \<lparr>Scan.id = next_id (map Scan.id (scans db)),
            website_id = Website.id (fst (find_or_create_website url_to_scan now db)),
            status = PENDING, created_at = now, completed_at = None\<rparr>"
    and "scans (fst (start_scan url_to_scan fault now db)) = scans db @ [scan response]"
    and "scan_results (fst (start_scan url_to_scan fault now db)) =
           add_scan_results (next_id (map Scan.id (scans db))) (test_definitions db) (scan_results db)"
    and "test_definitions (fst (start_scan url_to_scan fault now db)) = test_definitions db"
    and "results response = filter (\<lambda>r. ScanResult.scan_id r = next_id (map Scan.id (scans db)))
           (scan_results (fst (start_scan url_to_scan fault now db)))"
  using assms
  by (auto simp: start_scan_def start_scan_transaction_def start_scan_body_def Let_def
        find_or_create_website_frame find_new_scan
        split: sum.splits exception.splits option.splits store_fault.splits if_splits)


lemma filter_old_results:
  assumes "foreign_keys_hold db"
  shows "filter (\<lambda>r. ScanResult.scan_id r = next_id (map Scan.id (scans db))) (scan_results db) = []"
proof -
  have "\<And>r. r \<in> set (scan_results db) \<Longrightarrow>
          ScanResult.scan_id r \<noteq> next_id (map Scan.id (scans db))"
  proof -
    fix r assume "r \<in> set (scan_results db)"
    with assms have "ScanResult.scan_id r \<in> set (map Scan.id (scans db))"
      by (simp add: foreign_keys_hold_def list_all_iff)
    then show "ScanResult.scan_id r \<noteq> next_id (map Scan.id (scans db))"
      using next_id_fresh [of "map Scan.id (scans db)"] by metis
  qed
  then show ?thesis by (simp add: filter_empty_conv)
qed

lemma filter_all_true: "list_all P xs \<Longrightarrow> filter P xs = xs"
  by (induction xs) auto

text \<open>
  C5. When a request to create a scan succeeds, the store it leaves holds for the new
  Scan exactly one ScanResult for each TestDefinition of the catalog, in the order of
  the catalog, so as many as the catalog has entries, each with status PENDING and
  outcome NOT_RUN; the Scan row of the new id is the one of the response and has
  status PENDING; and the response lists these results. The store is one in which
  every ScanResult refers to an existing Scan.
\<close>

theorem start_scan_creates_pending_results:
  assumes "foreign_keys_hold db"
    and "snd (start_scan url_to_scan fault now db) = Inr (response, task)"
  shows "map ScanResult.test_definition_id
           (filter (\<lambda>r. ScanResult.scan_id r = fst task)
              (scan_results (fst (start_scan url_to_scan fault now db))))
         = map TestDefinition.id (test_definitions db)
    \<and> length (filter (\<lambda>r. ScanResult.scan_id r = fst task)
              (scan_results (fst (start_scan url_to_scan fault now db))))
         = length (test_definitions db)
    \<and> list_all (\<lambda>r. ScanResult.status r = PENDING \<and> ScanResult.result r = NOT_RUN)
           (filter (\<lambda>r. ScanResult.scan_id r = fst task)
              (scan_results (fst (start_scan url_to_scan fault now db))))
    \<and> find (\<lambda>s. Scan.id s = fst task) (scans (fst (start_scan url_to_scan fault now db)))
         = Some (scan response)
    \<and> Scan.status (scan response) = PENDING
    \<and> results response = filter (\<lambda>r. ScanResult.scan_id r = fst task)
           (scan_results (fst (start_scan url_to_scan fault now db)))"
proof -
  let ?sid = "next_id (map Scan.id (scans db))"
  let ?db' = "fst (start_scan url_to_scan fault now db)"
  note s = start_scan_success [OF assms(2)]
  have task: "fst task = ?sid" using s(3) by simp
  from add_scan_results_append [of ?sid "test_definitions db" "scan_results db"]
  obtain new where new:
    "add_scan_results ?sid (test_definitions db) (scan_results db) = scan_results db @ new"
    "map ScanResult.test_definition_id new = map TestDefinition.id (test_definitions db)"
    "list_all (\<lambda>r. ScanResult.scan_id r = ?sid \<and> ScanResult.status r = PENDING
                      \<and> ScanResult.result r = NOT_RUN) new"
    by blast
  from new(3) have "list_all (\<lambda>r. ScanResult.scan_id r = ?sid) new"
    by (simp add: list_all_iff)
  then have "filter (\<lambda>r. ScanResult.scan_id r = ?sid) new = new"
    by (rule filter_all_true)
  with filter_old_results [OF assms(1)] new(1) s(6)
  have rows: "filter (\<lambda>r. ScanResult.scan_id r = fst task) (scan_results ?db') = new"
    by (simp add: task)
  have len: "length new = length (test_definitions db)"
    using new(2) by (metis length_map)
  have pend: "list_all (\<lambda>r. ScanResult.status r = PENDING \<and> ScanResult.result r = NOT_RUN) new"
    using new(3) by (simp add: list_all_iff)
  have found: "find (\<lambda>s. Scan.id s = fst task) (scans ?db') = Some (scan response)"
    unfolding task s(5) using s(4) by (simp add: find_new_scan)
  have st: "Scan.status (scan response) = PENDING"
    using s(4) by simp
  have resp: "results response = filter (\<lambda>r. ScanResult.scan_id r = fst task) (scan_results ?db')"
    using s(8) by (simp add: task)
  from rows new(2) len pend found st resp show ?thesis by simp
qed

lemma start_scan_transaction_code:
  "start_scan_transaction url_to_scan fault now db = Inl (HTTPException code detail) \<Longrightarrow> code = 500"
  by (auto simp: start_scan_transaction_def start_scan_body_def Let_def
        split: if_splits option.splits store_fault.splits)

text \<open>
  C6. When the catalog is empty, a request to create a scan fails with an
  \<^verbatim>\<open>HTTPException\<close> of status 500 and leaves the store as it was, although the body of
  the transaction has by then added the Website when it was new (lemma
  \<open>website_added_before_catalog_check\<close>); the detail is that of line 412 unless the
  store has failed before the catalog was read. More generally every failing request
  gives status 500 and leaves the store unchanged.
\<close>

theorem start_scan_empty_catalog:
  "(test_definitions db = [] \<longrightarrow>
      fst (start_scan url_to_scan fault now db) = db
    \<and> (\<exists>detail. snd (start_scan url_to_scan fault now db) = Inl (HTTPException 500 detail))
    \<and> ((\<forall>e. fault \<noteq> Some (At_first_query e)) \<longrightarrow>
          snd (start_scan url_to_scan fault now db)
            = Inl (HTTPException 500 ''No test definitions found in the database.'')))
   \<and> (\<forall>e. snd (start_scan url_to_scan fault now db) = Inl e \<longrightarrow>
          fst (start_scan url_to_scan fault now db) = db \<and> (\<exists>detail. e = HTTPException 500 detail))"
proof -
  have body: "test_definitions db = [] \<Longrightarrow>
      start_scan_body url_to_scan commit_fault now db
        = Inl (HTTPException 500 ''No test definitions found in the database.'')" for commit_fault
    by (simp add: start_scan_body_def Let_def find_or_create_website_frame)
  have a: "test_definitions db = [] \<longrightarrow>
      fst (start_scan url_to_scan fault now db) = db
    \<and> (\<exists>detail. snd (start_scan url_to_scan fault now db) = Inl (HTTPException 500 detail))
    \<and> ((\<forall>e. fault \<noteq> Some (At_first_query e)) \<longrightarrow>
          snd (start_scan url_to_scan fault now db)
            = Inl (HTTPException 500 ''No test definitions found in the database.''))"
    by (auto simp: start_scan_def start_scan_transaction_def body
          split: option.splits store_fault.splits)
  have b: "\<forall>e. snd (start_scan url_to_scan fault now db) = Inl e \<longrightarrow>
          fst (start_scan url_to_scan fault now db) = db \<and> (\<exists>detail. e = HTTPException 500 detail)"
    by (auto simp: start_scan_def split: sum.splits exception.splits
          dest: start_scan_transaction_code)
  from a b show ?thesis by blast
qed

lemma website_added_before_catalog_check:
  "find (\<lambda>w. Website.url w = url_to_scan) (websites db) = None \<Longrightarrow>
   length (websites (snd (find_or_create_website url_to_scan now db))) = Suc (length (websites db))"
  by (simp add: find_or_create_website_def Let_def)

theorem start_scan_empty_catalog_witness:
  "test_definitions empty_db = []
   \<and> fst (start_scan ''http://example.com'' None 5 empty_db) = empty_db
   \<and> snd (start_scan ''http://example.com'' None 5 empty_db)
       = Inl (HTTPException 500 ''No test definitions found in the database.'')"
proof -
  have "test_definitions empty_db = []" by (simp add: empty_db_def)
  with start_scan_empty_catalog [of empty_db "''http://example.com''" None 5]
  show ?thesis by simp
qed

theorem start_scan_creates_pending_results_witness:
  "foreign_keys_hold small_db
   \<and> snd (start_scan ''http://example.com'' None 5 small_db)
       = Inr (small_response, (2, ''http://example.com''))
   \<and> length (filter (\<lambda>r. ScanResult.scan_id r = 2)
              (scan_results (fst (start_scan ''http://example.com'' None 5 small_db))))
         = length (test_definitions small_db)
   \<and> list_all (\<lambda>r. ScanResult.status r = PENDING \<and> ScanResult.result r = NOT_RUN)
           (filter (\<lambda>r. ScanResult.scan_id r = 2)
              (scan_results (fst (start_scan ''http://example.com'' None 5 small_db))))
   \<and> Scan.status (scan small_response) = PENDING"
proof -
  have fk: "foreign_keys_hold small_db"
    by (simp add: foreign_keys_hold_def small_db_def)
  have ok: "snd (start_scan ''http://example.com'' None 5 small_db)
       = Inr (small_response, (2, ''http://example.com''))"
    by (simp add: start_scan_def start_scan_transaction_def start_scan_body_def
          find_or_create_website_def small_db_def small_response_def next_id_def Let_def)
  from start_scan_creates_pending_results [OF fk ok] fk ok show ?thesis
    by simp
qed

section \<open>Three runs of a scan with one test\<close>

text \<open>
  The whole background execution on the small store, evaluated: the site passes the
  check; the check raises; the check raises and the final write fails.
\<close>

lemma scenario_passed:
  "map (\<lambda>r. (ScanResult.status r, ScanResult.result r))
     (scan_results (run_all_tests_for_scan 1 ''http://example.com''
        \<lparr>fetch_fault = None, scan_now = 9, unit_env = (\<lambda>i. env_https)\<rparr> small_db))
     = [(COMPLETED, PASSED)]
   \<and> map Scan.status (scans (run_all_tests_for_scan 1 ''http://example.com''
        \<lparr>fetch_fault = None, scan_now = 9, unit_env = (\<lambda>i. env_https)\<rparr> small_db))
     = [COMPLETED]"
  by code_simp

lemma scenario_probe_raises:
  "map (\<lambda>r. (ScanResult.status r, ScanResult.result r))
     (scan_results (run_all_tests_for_scan 1 ''http://example.com''
        \<lparr>fetch_fault = None, scan_now = 9, unit_env = (\<lambda>i. env_raising None)\<rparr> small_db))
     = [(ERROR, NOT_RUN)]
   \<and> map Scan.status (scans (run_all_tests_for_scan 1 ''http://example.com''
        \<lparr>fetch_fault = None, scan_now = 9, unit_env = (\<lambda>i. env_raising None)\<rparr> small_db))
     = [ERROR]"
  by code_simp

lemma scenario_final_write_fails:
  "map (\<lambda>r. (ScanResult.status r, ScanResult.result r))
     (scan_results (run_all_tests_for_scan 1 ''http://example.com''
        \<lparr>fetch_fault = None, scan_now = 9,
         unit_env = (\<lambda>i. env_raising (Some ''store down''))\<rparr> small_db))
     = [(IN_PROGRESS, NOT_RUN)]
   \<and> map Scan.status (scans (run_all_tests_for_scan 1 ''http://example.com''
        \<lparr>fetch_fault = None, scan_now = 9,
         unit_env = (\<lambda>i. env_raising (Some ''store down''))\<rparr> small_db))
     = [ERROR]"
  by code_simp

section \<open>Units of different results do not interfere\<close>

text \<open>
  A unit changes the row of its own id and nothing else, and what it does depends on
  the store only through that row and the catalog. So two units for different ids
  commute, and the store after \<open>gather\<close> does not depend on the order in which
  neighbouring units run.
\<close>

lemma find_id_map_other:
  assumes "\<And>r. ScanResult.id (g r) = ScanResult.id r"
    and "\<And>r. ScanResult.id r = i \<Longrightarrow> g r = r"
  shows "find (\<lambda>r. ScanResult.id r = i) (map g rows) = find (\<lambda>r. ScanResult.id r = i) rows"
proof (cases "find (\<lambda>r. ScanResult.id r = i) rows")
  case None
  then show ?thesis by (simp add: find_id_map [of g, OF assms(1)])
next
  case (Some r)
  then have "ScanResult.id r = i" by (auto simp: find_Some_iff)
  with assms(2) Some show ?thesis by (simp add: find_id_map [of g, OF assms(1)])
qed

lemma run_single_test_rows:
  "\<exists>f. (\<forall>r. ScanResult.id (f r) = ScanResult.id r)
      \<and> (\<forall>db2. test_definitions db2 = test_definitions (db::database)
               \<and> find (\<lambda>r. ScanResult.id r = i) (scan_results db2)
                   = find (\<lambda>r. ScanResult.id r = i) (scan_results db)
            \<longrightarrow> run_single_test i u env db2 =
                  db2\<lparr>scan_results := map (\<lambda>r. if ScanResult.id r = i then f r else r)
                                           (scan_results db2)\<rparr>)"
proof -
  let ?begin = "\<lambda>r. r\<lparr>ScanResult.status := IN_PROGRESS, started_at := Some (begin_now env)\<rparr>"
  have same: "\<And>db2. mark_in_progress i (begin_fault env) (begin_now env) db2 = (db2, None) \<Longrightarrow>
      run_single_test i u env db2 =
        db2\<lparr>scan_results := map (\<lambda>r. if ScanResult.id r = i then r else r) (scan_results db2)\<rparr>"
    by (simp add: run_single_test_def)
  show ?thesis
  proof (cases "\<exists>db1 test_name. mark_in_progress i (begin_fault env) (begin_now env) db = (db1, Some test_name)")
    case False
    have "\<forall>db2. test_definitions db2 = test_definitions db
               \<and> find (\<lambda>r. ScanResult.id r = i) (scan_results db2)
                   = find (\<lambda>r. ScanResult.id r = i) (scan_results db)
            \<longrightarrow> run_single_test i u env db2 =
                  db2\<lparr>scan_results := map (\<lambda>r. if ScanResult.id r = i then r else r)
                                           (scan_results db2)\<rparr>"
    proof (intro allI impI)
      fix db2 :: database assume a: "test_definitions db2 = test_definitions db
               \<and> find (\<lambda>r. ScanResult.id r = i) (scan_results db2)
                   = find (\<lambda>r. ScanResult.id r = i) (scan_results db)"
      with False have "mark_in_progress i (begin_fault env) (begin_now env) db2 = (db2, None)"
        by (auto simp: mark_in_progress_def split: option.splits)
      then show "run_single_test i u env db2 =
                  db2\<lparr>scan_results := map (\<lambda>r. if ScanResult.id r = i then r else r)
                                           (scan_results db2)\<rparr>"
        by (rule same)
    qed
    then show ?thesis by (intro exI [of _ "\<lambda>r. r"]) simp
  next
    case True
    then obtain db1 test_name where
      b: "mark_in_progress i (begin_fault env) (begin_now env) db = (db1, Some test_name)"
      by blast
    let ?v = "execute_test_logic env test_name u"
    let ?final = "\<lambda>r. r\<lparr>ScanResult.status := final_status ?v, result := outcome ?v,
                      summary := Some (summary_text ?v), details := details_text ?v,
                      recommendations := recommendations_text ?v,
                      ScanResult.completed_at := Some (finish_now env)\<rparr>"
    let ?f = "\<lambda>r. if finish_fault env = None then ?final (?begin r) else ?begin r"
    have "\<forall>db2. test_definitions db2 = test_definitions db
               \<and> find (\<lambda>r. ScanResult.id r = i) (scan_results db2)
                   = find (\<lambda>r. ScanResult.id r = i) (scan_results db)
            \<longrightarrow> run_single_test i u env db2 =
                  db2\<lparr>scan_results := map (\<lambda>r. if ScanResult.id r = i then ?f r else r)
                                           (scan_results db2)\<rparr>"
    proof (intro allI impI)
      fix db2 :: database assume a: "test_definitions db2 = test_definitions db
               \<and> find (\<lambda>r. ScanResult.id r = i) (scan_results db2)
                   = find (\<lambda>r. ScanResult.id r = i) (scan_results db)"
      let ?rows1 = "map (\<lambda>r. if ScanResult.id r = i then ?begin r else r) (scan_results db2)"
      from b a have b2: "mark_in_progress i (begin_fault env) (begin_now env) db2 =
          (db2\<lparr>scan_results := ?rows1\<rparr>, Some test_name)"
        by (auto simp: mark_in_progress_def split: option.splits)
      from b a have "find (\<lambda>r. ScanResult.id r = i) (scan_results db2) \<noteq> None"
        by (auto simp: mark_in_progress_def split: option.splits)
      then have found: "find (\<lambda>r. ScanResult.id r = i) ?rows1 \<noteq> None"
        by (simp add: find_id_map)
      have run: "run_single_test i u env db2 =
          update_final_results i ?v (finish_fault env) (finish_now env) (db2\<lparr>scan_results := ?rows1\<rparr>)"
        by (simp add: run_single_test_def b2)
      show "run_single_test i u env db2 =
                  db2\<lparr>scan_results := map (\<lambda>r. if ScanResult.id r = i then ?f r else r)
                                           (scan_results db2)\<rparr>"
      proof (cases "finish_fault env")
        case None
        with found show ?thesis
          unfolding run by (auto simp: update_final_results_def)
      next
        case (Some e)
        then show ?thesis
          unfolding run by (simp add: update_final_results_def)
      qed
    qed
    then show ?thesis by (intro exI [of _ ?f]) simp
  qed
qed

lemma run_single_test_commute:
  assumes "i \<noteq> j"
  shows "run_single_test i u env (run_single_test j u' env' db)
       = run_single_test j u' env' (run_single_test i u env db)"
proof -
  from run_single_test_rows [of db i u env] obtain f where
    f_id: "\<And>r. ScanResult.id (f r) = ScanResult.id r" and
    f: "\<And>db2. test_definitions db2 = test_definitions db \<Longrightarrow>
           find (\<lambda>r. ScanResult.id r = i) (scan_results db2)
             = find (\<lambda>r. ScanResult.id r = i) (scan_results db) \<Longrightarrow>
           run_single_test i u env db2 =
             db2\<lparr>scan_results := map (\<lambda>r. if ScanResult.id r = i then f r else r) (scan_results db2)\<rparr>"
    by blast
  from run_single_test_rows [of db j u' env'] obtain g where
    g_id: "\<And>r. ScanResult.id (g r) = ScanResult.id r" and
    g: "\<And>db2. test_definitions db2 = test_definitions db \<Longrightarrow>
           find (\<lambda>r. ScanResult.id r = j) (scan_results db2)
             = find (\<lambda>r. ScanResult.id r = j) (scan_results db) \<Longrightarrow>
           run_single_test j u' env' db2 =
             db2\<lparr>scan_results := map (\<lambda>r. if ScanResult.id r = j then g r else r) (scan_results db2)\<rparr>"
    by blast
  let ?F = "\<lambda>r. if ScanResult.id r = i then f r else r"
  let ?G = "\<lambda>r. if ScanResult.id r = j then g r else r"
  have A: "run_single_test i u env db = db\<lparr>scan_results := map ?F (scan_results db)\<rparr>"
    by (rule f) simp_all
  have B: "run_single_test j u' env' db = db\<lparr>scan_results := map ?G (scan_results db)\<rparr>"
    by (rule g) simp_all
  have F_id: "\<And>r. ScanResult.id (?F r) = ScanResult.id r" by (simp add: f_id)
  have G_id: "\<And>r. ScanResult.id (?G r) = ScanResult.id r" by (simp add: g_id)
  have "find (\<lambda>r. ScanResult.id r = i) (map ?G (scan_results db))
      = find (\<lambda>r. ScanResult.id r = i) (scan_results db)"
    by (rule find_id_map_other [of ?G, OF G_id]) (use assms in simp)
  then have AB: "run_single_test i u env (run_single_test j u' env' db)
      = db\<lparr>scan_results := map ?F (map ?G (scan_results db))\<rparr>"
    unfolding B by (subst f) simp_all
  have "find (\<lambda>r. ScanResult.id r = j) (map ?F (scan_results db))
      = find (\<lambda>r. ScanResult.id r = j) (scan_results db)"
    by (rule find_id_map_other [of ?F, OF F_id]) (use assms in simp)
  then have BA: "run_single_test j u' env' (run_single_test i u env db)
      = db\<lparr>scan_results := map ?G (map ?F (scan_results db))\<rparr>"
    unfolding A by (subst g) simp_all
  have "\<And>r. ?F (?G r) = ?G (?F r)"
    using assms by (simp add: f_id g_id)
  then have "map ?F (map ?G (scan_results db)) = map ?G (map ?F (scan_results db))"
    by (simp add: comp_def)
  with AB BA show ?thesis by simp
qed

lemma run_all_tests_for_scan_phases:
  "run_all_tests_for_scan sid u env db =
     (case start_tests sid (fetch_fault env) (scan_now env) db of
        (db1, ids) \<Rightarrow>
          if ids = [] then db1
          else final_scan_update sid ids (scan_now env) (gather ids u (unit_env env) db1))"
  by (simp add: run_all_tests_for_scan_def start_tests_def split: sum.splits)


lemma gather_append:
  "gather (xs @ ys) u envs db = gather ys u envs (gather xs u envs db)"
  by (induction xs arbitrary: db) auto

lemma gather_swap:
  assumes "i \<noteq> j"
  shows "gather (xs @ i # j # ys) u envs db = gather (xs @ j # i # ys) u envs db"
  using run_single_test_commute [OF assms, of u "envs i" u "envs j" "gather xs u envs db"]
  by (simp add: gather_append)

section \<open>The status of a result in the running system\<close>

subsection \<open>Rows and lookups\<close>

lemma find_row:
  "distinct (map ScanResult.id rows) \<Longrightarrow> r \<in> set rows \<Longrightarrow>
   find (\<lambda>x. ScanResult.id x = ScanResult.id r) rows = Some r"
  by (induction rows) (auto simp: image_iff)

lemma result_status_row:
  "distinct (map ScanResult.id (scan_results db)) \<Longrightarrow> r \<in> set (scan_results db) \<Longrightarrow>
   result_status db (ScanResult.id r) = Some (ScanResult.status r)"
  by (simp add: result_status_def find_row)

lemma result_status_None: "result_status db i = None \<longleftrightarrow> i \<notin> set (map ScanResult.id (scan_results db))"
  by (auto simp: result_status_def find_None_iff)

lemma result_status_Some:
  "result_status db i = Some st \<Longrightarrow>
   \<exists>r \<in> set (scan_results db). ScanResult.id r = i \<and> ScanResult.status r = st"
  by (auto simp: result_status_def find_Some_iff)

lemma result_status_map:
  assumes "scan_results db' = map g (scan_results db)"
    and "\<And>r. ScanResult.id (g r) = ScanResult.id r"
  shows "result_status db' j =
         map_option (\<lambda>r. ScanResult.status (g r)) (find (\<lambda>r. ScanResult.id r = j) (scan_results db))"
  using assms by (simp add: result_status_def find_id_map option.map_comp comp_def)

lemma result_status_map_other:
  assumes "scan_results db' = map g (scan_results db)"
    and "\<And>r. ScanResult.id (g r) = ScanResult.id r"
    and "\<And>r. ScanResult.id r \<noteq> i \<Longrightarrow> g r = r"
    and "j \<noteq> i"
  shows "result_status db' j = result_status db j"
proof (cases "find (\<lambda>r. ScanResult.id r = j) (scan_results db)")
  case None
  then show ?thesis
    using result_status_map [OF assms(1,2), of j] by (simp add: result_status_def)
next
  case (Some r)
  then have "ScanResult.id r = j" by (auto simp: find_Some_iff)
  with assms(3,4) have "g r = r" by simp
  with Some show ?thesis
    using result_status_map [OF assms(1,2), of j] by (simp add: result_status_def)
qed

lemma map_fst_update:
  "k < length xs \<Longrightarrow> fst (xs ! k) = fst y \<Longrightarrow> map fst (xs[k := y]) = map fst xs"
  by (simp add: map_update list_update_same_conv)

lemma set_update_cases:
  assumes "t \<in> set (xs[k := y])"
  shows "t = y \<or> (\<exists>j < length xs. j \<noteq> k \<and> t = xs ! j)"
proof -
  from assms obtain j where j: "j < length (xs[k := y])" "t = xs[k := y] ! j"
    by (auto simp: in_set_conv_nth)
  show ?thesis
  proof (cases "j = k")
    case True
    with j show ?thesis by simp
  next
    case False
    with j show ?thesis by auto
  qed
qed

lemma distinct_fst_nth:
  "distinct (map fst xs) \<Longrightarrow> j < length xs \<Longrightarrow> k < length xs \<Longrightarrow> j \<noteq> k \<Longrightarrow>
   fst (xs ! j) \<noteq> fst (xs ! k)"
  by (metis distinct_conv_nth length_map nth_map)

subsection \<open>A unit writes its own row\<close>

lemma unit_write_preserves:
  assumes inv: "invariant s"
    and k: "k < length (units s)" "units s ! k = (i, u, pc)"
    and rows: "scan_results db' = map g (scan_results (store s))"
    and scans: "scans db' = scans (store s)"
    and g_id: "\<And>r. ScanResult.id (g r) = ScanResult.id r"
    and g_scan: "\<And>r. ScanResult.scan_id (g r) = ScanResult.scan_id r"
    and g_other: "\<And>r. ScanResult.id r \<noteq> i \<Longrightarrow> g r = r"
    and fits: "pc_fits pc' (result_status db' i)"
  shows "invariant (s\<lparr>store := db', units := (units s)[k := (i, u, pc')]\<rparr>)"
proof -
  let ?us = "(units s)[k := (i, u, pc')]"
  have fsts: "map fst ?us = map fst (units s)"
    using k by (simp add: map_fst_update)
  have i_unit: "i \<in> set (map fst (units s))"
    using k by (metis fst_conv length_map nth_map nth_mem)
  have ok: "store_ok db'"
  proof -
    have "map ScanResult.id (scan_results db') = map ScanResult.id (scan_results (store s))"
      by (simp add: rows g_id)
    moreover have "foreign_keys_hold db'"
      using inv by (simp add: invariant_def store_ok_def foreign_keys_hold_def rows scans
          list_all_iff g_scan)
    ultimately show ?thesis using inv by (simp add: invariant_def store_ok_def)
  qed
  have dist: "distinct (map fst ?us)"
    using inv by (simp add: fsts invariant_def)
  have fit: "\<forall>t \<in> set ?us. pc_fits (snd (snd t)) (result_status db' (fst t))"
  proof
    fix t assume "t \<in> set ?us"
    from set_update_cases [OF this]
    show "pc_fits (snd (snd t)) (result_status db' (fst t))"
    proof
      assume "t = (i, u, pc')"
      with fits show ?thesis by simp
    next
      assume "\<exists>j < length (units s). j \<noteq> k \<and> t = units s ! j"
      then obtain j where j: "j < length (units s)" "j \<noteq> k" "t = units s ! j" by blast
      from inv have "distinct (map fst (units s))" by (simp add: invariant_def)
      from distinct_fst_nth [OF this j(1) k(1) j(2)] k(2) j(3) have "fst t \<noteq> i" by simp
      from result_status_map_other [OF rows g_id g_other this]
      have "result_status db' (fst t) = result_status (store s) (fst t)" .
      moreover from j have "t \<in> set (units s)" by simp
      ultimately show ?thesis using inv by (simp add: invariant_def)
    qed
  qed
  have known: "\<forall>c \<in> set (coordinators s). fst c \<in> set (map Scan.id (scans db'))"
    using inv by (simp add: invariant_def scans)
  have fresh: "\<forall>c \<in> set (coordinators s). snd (snd c) = Scheduled \<longrightarrow>
         (\<forall>r \<in> set (scan_results db'). ScanResult.scan_id r = fst c \<longrightarrow>
            ScanResult.status r = PENDING \<and> ScanResult.id r \<notin> set (map fst ?us))"
  proof (intro ballI impI)
    fix c r' assume c: "c \<in> set (coordinators s)" "snd (snd c) = Scheduled"
      and r': "r' \<in> set (scan_results db')" "ScanResult.scan_id r' = fst c"
    from r'(1) obtain r where r: "r \<in> set (scan_results (store s))" "r' = g r"
      by (auto simp: rows)
    with r'(2) have "ScanResult.scan_id r = fst c" by (simp add: g_scan)
    with inv c r(1) have p: "ScanResult.status r = PENDING"
      "ScanResult.id r \<notin> set (map fst (units s))"
      by (auto simp: invariant_def)
    with i_unit have "ScanResult.id r \<noteq> i" by auto
    then have "g r = r" by (rule g_other)
    with p r(2) show "ScanResult.status r' = PENDING \<and> ScanResult.id r' \<notin> set (map fst ?us)"
      by (simp add: fsts)
  qed
  from inv have "distinct (map fst (coordinators s))" by (simp add: invariant_def)
  with ok dist fit known fresh show ?thesis
    by (simp add: invariant_def)
qed


lemma result_status_dom:
  assumes "scan_results db' = map g (scan_results db)"
    and "\<And>r. ScanResult.id (g r) = ScanResult.id r"
  shows "result_status db' j = None \<longleftrightarrow> result_status db j = None"
  using assms by (simp add: result_status_None comp_def)

lemma result_status_map_self:
  assumes "scan_results db' = map g (scan_results db)"
    and "\<And>r. ScanResult.id (g r) = ScanResult.id r"
    and "\<And>r. ScanResult.id r = i \<Longrightarrow> ScanResult.status (g r) = st"
    and "result_status db i \<noteq> None"
  shows "result_status db' i = Some st"
proof -
  from assms(4) obtain r where r: "find (\<lambda>r. ScanResult.id r = i) (scan_results db) = Some r"
    by (auto simp: result_status_def)
  then have "ScanResult.id r = i" by (auto simp: find_Some_iff)
  with assms(3) r show ?thesis
    using result_status_map [OF assms(1,2), of i] by simp
qed

lemma pc_fits_exists: "pc_fits pc st \<Longrightarrow> st \<noteq> None"
  by (cases pc) auto

lemma mark_in_progress_effect:
  assumes "mark_in_progress i fault now db = (db', r)"
  shows "scans db' = scans db"
    and "scan_results db' =
           map (\<lambda>x. if r \<noteq> None \<and> ScanResult.id x = i
                     then x\<lparr>ScanResult.status := IN_PROGRESS, started_at := Some now\<rparr> else x)
               (scan_results db)"
    and "r \<noteq> None \<Longrightarrow> result_status db i \<noteq> None"
  using assms
  by (auto simp: mark_in_progress_def result_status_def split: option.splits)

lemma mark_in_progress_status:
  assumes "mark_in_progress i fault now db = (db', r)"
  shows "result_status db' j =
           (if j = i \<and> r \<noteq> None then Some IN_PROGRESS else result_status db j)"
proof -
  let ?g = "\<lambda>x. if r \<noteq> None \<and> ScanResult.id x = i
                     then x\<lparr>ScanResult.status := IN_PROGRESS, started_at := Some now\<rparr> else x"
  note e = mark_in_progress_effect [OF assms]
  have g_id: "\<And>x. ScanResult.id (?g x) = ScanResult.id x" by simp
  show ?thesis
  proof (cases "j = i \<and> r \<noteq> None")
    case True
    then have "\<And>x. ScanResult.id x = i \<Longrightarrow> ScanResult.status (?g x) = IN_PROGRESS"
      by simp
    from result_status_map_self [of db' ?g db i IN_PROGRESS, OF e(2) g_id this] e(3) True
    show ?thesis by simp
  next
    case False
    show ?thesis
    proof (cases "r = None")
      case True
      then have "scan_results db' = scan_results db" using e(2) by simp
      then show ?thesis using True by (simp add: result_status_def)
    next
      case r: False
      with False have "j \<noteq> i" by simp
      have "\<And>x. ScanResult.id x \<noteq> i \<Longrightarrow> ?g x = x" by simp
      from result_status_map_other [of db' ?g db i j, OF e(2) g_id this \<open>j \<noteq> i\<close>] \<open>j \<noteq> i\<close>
      show ?thesis by simp
    qed
  qed
qed

lemma update_final_results_effect:
  "scans (update_final_results i v fault now db) = scans db"
  "scan_results (update_final_results i v fault now db) =
     map (\<lambda>x. if fault = None \<and> ScanResult.id x = i
               then x\<lparr>ScanResult.status := final_status v, result := outcome v,
                      summary := Some (summary_text v), details := details_text v,
                      recommendations := recommendations_text v,
                      ScanResult.completed_at := Some now\<rparr>
               else x)
         (scan_results db)"
proof -
  show "scans (update_final_results i v fault now db) = scans db"
    by (simp add: update_final_results_def split: option.splits)
  have none: "find (\<lambda>r. ScanResult.id r = i) (scan_results db) = None \<Longrightarrow>
      map (\<lambda>x. if ScanResult.id x = i
               then x\<lparr>ScanResult.status := final_status v, result := outcome v,
                      summary := Some (summary_text v), details := details_text v,
                      recommendations := recommendations_text v,
                      ScanResult.completed_at := Some now\<rparr>
               else x) (scan_results db) = scan_results db"
    by (intro map_idI) (auto simp: find_None_iff)
  show "scan_results (update_final_results i v fault now db) =
     map (\<lambda>x. if fault = None \<and> ScanResult.id x = i
               then x\<lparr>ScanResult.status := final_status v, result := outcome v,
                      summary := Some (summary_text v), details := details_text v,
                      recommendations := recommendations_text v,
                      ScanResult.completed_at := Some now\<rparr>
               else x)
         (scan_results db)"
  proof (cases fault)
    case None
    then show ?thesis
      using none by (simp add: update_final_results_def split: option.splits)
  next
    case (Some e)
    then show ?thesis by (simp add: update_final_results_def)
  qed
qed

lemma update_final_results_status:
  "result_status (update_final_results i v fault now db) j =
     (if j = i \<and> fault = None \<and> result_status db i \<noteq> None then Some (final_status v)
      else result_status db j)"
proof -
  let ?db' = "update_final_results i v fault now db"
  let ?g = "\<lambda>x. if fault = None \<and> ScanResult.id x = i
               then x\<lparr>ScanResult.status := final_status v, result := outcome v,
                      summary := Some (summary_text v), details := details_text v,
                      recommendations := recommendations_text v,
                      ScanResult.completed_at := Some now\<rparr>
               else x"
  note e = update_final_results_effect [of i v fault now db]
  have g_id: "\<And>x. ScanResult.id (?g x) = ScanResult.id x" by simp
  show ?thesis
  proof (cases "fault = None")
    case True
    show ?thesis
    proof (cases "j = i")
      case j: True
      show ?thesis
      proof (cases "result_status db i = None")
        case n: True
        with result_status_dom [of ?db' ?g db i, OF e(2) g_id] j show ?thesis by simp
      next
        case n: False
        from True have "\<And>x. ScanResult.id x = i \<Longrightarrow> ScanResult.status (?g x) = final_status v"
          by simp
        from result_status_map_self [of ?db' ?g db i "final_status v", OF e(2) g_id this n] True j n
        show ?thesis by simp
      qed
    next
      case j: False
      have "\<And>x. ScanResult.id x \<noteq> i \<Longrightarrow> ?g x = x" by simp
      from result_status_map_other [of ?db' ?g db i j, OF e(2) g_id this j] j
      show ?thesis by simp
    qed
  next
    case False
    then obtain e' where f: "fault = Some e'" by auto
    then have "scan_results ?db' = scan_results db"
      by (simp add: update_final_results_def)
    with f show ?thesis by (simp add: result_status_def)
  qed
qed

lemma execute_test_logic_terminal:
  "final_status (execute_test_logic env test_name u) = COMPLETED
   \<or> final_status (execute_test_logic env test_name u) = ERROR"
  by (auto simp: execute_test_logic_def test_logic_body_def ssl_tls_check_def ssl_tls_request_def
        simulated_test_def Let_def split: sum.splits if_splits)


subsection \<open>The coordinator writes only the Scan row\<close>

lemma mark_scan_error_frame:
  "scan_results (mark_scan_error sid now db) = scan_results db"
  "map Scan.id (scans (mark_scan_error sid now db)) = map Scan.id (scans db)"
  by (auto simp: mark_scan_error_def split: option.splits)

lemma mark_scan_without_tests_frame:
  "scan_results (mark_scan_without_tests sid now db) = scan_results db"
  "map Scan.id (scans (mark_scan_without_tests sid now db)) = map Scan.id (scans db)"
  by (auto simp: mark_scan_without_tests_def split: option.splits)

lemma final_scan_update_frame:
  "scan_results (final_scan_update sid ids now db) = scan_results db"
  "map Scan.id (scans (final_scan_update sid ids now db)) = map Scan.id (scans db)"
  by (auto simp: final_scan_update_def Let_def split: option.splits)

lemma start_tests_frame:
  assumes "start_tests sid fault now db = (db', ids)"
  shows "scan_results db' = scan_results db"
    and "map Scan.id (scans db') = map Scan.id (scans db)"
    and "ids = [] \<or> ids = map ScanResult.id (filter (\<lambda>r. ScanResult.scan_id r = sid) (scan_results db))"
  using assms
  by (auto simp: start_tests_def fetch_scan_result_ids_def mark_scan_error_frame
        mark_scan_without_tests_frame split: option.splits sum.splits if_splits)

lemma result_status_same_rows:
  "scan_results db' = scan_results db \<Longrightarrow> result_status db' j = result_status db j"
  by (simp add: result_status_def)

lemma coordinator_write_preserves:
  assumes inv: "invariant s"
    and k: "k < length (coordinators s)" "coordinators s ! k = (sid, u, pc)"
    and pc': "pc' \<noteq> Scheduled"
    and rows: "scan_results db' = scan_results (store s)"
    and scans: "map Scan.id (scans db') = map Scan.id (scans (store s))"
    and ids: "ids = [] \<or> (pc = Scheduled \<and>
                ids = map ScanResult.id (filter (\<lambda>r. ScanResult.scan_id r = sid) (scan_results (store s))))"
  shows "invariant (s\<lparr>store := db',
            coordinators := (coordinators s)[k := (sid, u, pc')],
            units := units s @ map (\<lambda>i. (i, u, Before_begin)) ids\<rparr>)"
proof -
  let ?cs = "(coordinators s)[k := (sid, u, pc')]"
  let ?us = "units s @ map (\<lambda>i. (i, u, Before_begin)) ids"
  let ?rows = "scan_results (store s)"
  from inv have d_rows: "distinct (map ScanResult.id ?rows)"
    by (simp add: invariant_def store_ok_def)
  have c_in: "(sid, u, pc) \<in> set (coordinators s)"
    using k by (metis nth_mem)
  have fsts: "map fst ?cs = map fst (coordinators s)"
    using k by (simp add: map_fst_update)
  have us_fst: "map fst ?us = map fst (units s) @ ids"
    by (simp add: comp_def)
  have ok: "store_ok db'"
    using inv by (simp add: invariant_def store_ok_def foreign_keys_hold_def rows scans)
  have id_rows: "\<forall>i \<in> set ids. \<exists>r \<in> set ?rows. ScanResult.id r = i \<and> ScanResult.scan_id r = sid
        \<and> pc = Scheduled"
    using ids by auto
  have d_ids: "distinct ids"
    using ids d_rows by (auto simp: distinct_map_filter)
  have new_fresh: "\<forall>i \<in> set ids. i \<notin> set (map fst (units s))"
  proof
    fix i assume "i \<in> set ids"
    with id_rows obtain r where r: "r \<in> set ?rows" "ScanResult.id r = i"
      "ScanResult.scan_id r = sid" "pc = Scheduled" by blast
    with inv c_in show "i \<notin> set (map fst (units s))"
      by (fastforce simp: invariant_def)
  qed
  have "distinct (map fst (units s) @ ids)"
    using inv d_ids new_fresh by (auto simp: invariant_def)
  then have dist: "distinct (map fst ?us)"
    by (simp only: us_fst)
  have fit: "\<forall>t \<in> set ?us. pc_fits (snd (snd t)) (result_status db' (fst t))"
  proof
    fix t assume "t \<in> set ?us"
    then consider "t \<in> set (units s)" | i where "i \<in> set ids" "t = (i, u, Before_begin)"
      by auto
    then show "pc_fits (snd (snd t)) (result_status db' (fst t))"
    proof cases
      case 1
      with inv show ?thesis
        by (simp add: invariant_def result_status_same_rows [OF rows])
    next
      case 2
      with id_rows obtain r where r: "r \<in> set ?rows" "ScanResult.id r = i"
        "ScanResult.scan_id r = sid" "pc = Scheduled" by blast
      with inv c_in have "ScanResult.status r = PENDING"
        by (fastforce simp: invariant_def)
      with result_status_row [OF d_rows r(1)] r(2) have "result_status (store s) i = Some PENDING"
        by simp
      with 2 show ?thesis
        by (simp add: result_status_same_rows [OF rows])
    qed
  qed
  have cdist: "distinct (map fst ?cs)"
    using inv by (simp add: fsts invariant_def)
  have known: "\<forall>c \<in> set ?cs. fst c \<in> set (map Scan.id (scans db'))"
  proof
    fix c assume "c \<in> set ?cs"
    then have "fst c \<in> set (map fst ?cs)" by simp
    then have "fst c \<in> set (map fst (coordinators s))" by (simp only: fsts)
    with inv show "fst c \<in> set (map Scan.id (scans db'))"
      by (auto simp: invariant_def scans)
  qed
  have fresh: "\<forall>c \<in> set ?cs. snd (snd c) = Scheduled \<longrightarrow>
         (\<forall>r \<in> set (scan_results db'). ScanResult.scan_id r = fst c \<longrightarrow>
            ScanResult.status r = PENDING \<and> ScanResult.id r \<notin> set (map fst ?us))"
  proof (intro ballI impI)
    fix c r assume c: "c \<in> set ?cs" "snd (snd c) = Scheduled"
      and r: "r \<in> set (scan_results db')" "ScanResult.scan_id r = fst c"
    from set_update_cases [OF c(1)] c(2) pc'
    obtain j where j: "j < length (coordinators s)" "j \<noteq> k" "c = coordinators s ! j"
      by auto
    from inv have "distinct (map fst (coordinators s))" by (simp add: invariant_def)
    from distinct_fst_nth [OF this j(1) k(1) j(2)] k(2) j(3) have ne: "fst c \<noteq> sid" by simp
    from j have "c \<in> set (coordinators s)" by simp
    with inv c(2) r have old: "ScanResult.status r = PENDING"
      "ScanResult.id r \<notin> set (map fst (units s))"
      by (auto simp: invariant_def rows)
    have "ScanResult.id r \<notin> set ids"
    proof
      assume "ScanResult.id r \<in> set ids"
      with id_rows obtain r2 where r2: "r2 \<in> set ?rows" "ScanResult.id r2 = ScanResult.id r"
        "ScanResult.scan_id r2 = sid" by blast
      from r(1) have "r \<in> set ?rows" by (simp add: rows)
      with d_rows r2(1,2) have "r2 = r"
        by (metis distinct_map inj_onD)
      with r2(3) r(2) ne show False by simp
    qed
    with old have "ScanResult.status r = PENDING \<and> ScanResult.id r \<notin> set (map fst (units s) @ ids)"
      by simp
    then show "ScanResult.status r = PENDING \<and> ScanResult.id r \<notin> set (map fst ?us)"
      unfolding us_fst .
  qed
  from ok dist fit cdist known fresh show ?thesis
    by (simp add: invariant_def)
qed


subsection \<open>A request adds rows\<close>

lemma start_scan_failure_store:
  "snd (start_scan url_to_scan fault now db) = Inl e \<Longrightarrow>
   fst (start_scan url_to_scan fault now db) = db"
  by (auto simp: start_scan_def split: sum.splits exception.splits)

lemma result_status_append_old:
  assumes "scan_results db' = scan_results db @ new" and "result_status db j = Some st"
  shows "result_status db' j = Some st"
  using assms by (auto simp: result_status_def find_in_append split: option.splits)

lemma request_effect:
  assumes "start_scan url_to_scan fault now db = (db', Inr (response, task))"
    and "store_ok db"
  shows "\<exists>new. scan_results db' = scan_results db @ new
      \<and> list_all (\<lambda>r. ScanResult.scan_id r = fst task \<and> ScanResult.status r = PENDING) new
      \<and> distinct (map ScanResult.id (scan_results db @ new))"
    and "map Scan.id (scans db') = map Scan.id (scans db) @ [fst task]"
    and "fst task \<notin> set (map Scan.id (scans db))"
    and "snd (snd (hd (scheduled_task (Inr (response, task)))) ) = Scheduled"
    and "scheduled_task (Inr (response, task)) = [(fst task, snd task, Scheduled)]"
proof -
  let ?sid = "next_id (map Scan.id (scans db))"
  from assms(1) have snd: "snd (start_scan url_to_scan fault now db) = Inr (response, task)"
    and fst: "fst (start_scan url_to_scan fault now db) = db'" by simp_all
  note s = start_scan_success [OF snd]
  have task: "fst task = ?sid" using s(3) by simp
  from add_scan_results_append [of ?sid "test_definitions db" "scan_results db"]
  obtain new where new:
    "add_scan_results ?sid (test_definitions db) (scan_results db) = scan_results db @ new"
    "list_all (\<lambda>r. ScanResult.scan_id r = ?sid \<and> ScanResult.status r = PENDING
                      \<and> ScanResult.result r = NOT_RUN) new"
    "distinct (map ScanResult.id (scan_results db)) \<longrightarrow>
       distinct (map ScanResult.id (scan_results db @ new))"
    by blast
  from new(2) have "list_all (\<lambda>r. ScanResult.scan_id r = fst task \<and> ScanResult.status r = PENDING) new"
    by (simp add: list_all_iff task)
  moreover from new(3) assms(2) have "distinct (map ScanResult.id (scan_results db @ new))"
    by (simp add: store_ok_def)
  moreover have "scan_results db' = scan_results db @ new"
    using s(6) new(1) fst by simp
  ultimately show "\<exists>new. scan_results db' = scan_results db @ new
      \<and> list_all (\<lambda>r. ScanResult.scan_id r = fst task \<and> ScanResult.status r = PENDING) new
      \<and> distinct (map ScanResult.id (scan_results db @ new))"
    by blast
  show "map Scan.id (scans db') = map Scan.id (scans db) @ [fst task]"
    using s(5) s(4) fst by (simp add: task)
  show "fst task \<notin> set (map Scan.id (scans db))"
    unfolding task by (rule next_id_fresh)
  show "scheduled_task (Inr (response, task)) = [(fst task, snd task, Scheduled)]"
    by (cases task) simp
  then show "snd (snd (hd (scheduled_task (Inr (response, task)))) ) = Scheduled"
    by simp
qed

lemma request_preserves:
  assumes inv: "invariant s"
    and req: "start_scan url_to_scan fault now (store s) = (db', r)"
  shows "invariant (s\<lparr>store := db', coordinators := coordinators s @ scheduled_task r\<rparr>)"
proof (cases r)
  case (Inl e)
  with req have "db' = store s"
    using start_scan_failure_store [of url_to_scan fault now "store s" e] by simp
  with Inl inv show ?thesis by simp
next
  case (Inr p)
  obtain response task where p: "p = (response, task)" by (cases p)
  let ?sid = "fst task"
  let ?rows = "scan_results (store s)"
  from inv have ok: "store_ok (store s)" by (simp add: invariant_def)
  note e = request_effect [OF req [unfolded Inr p] ok]
  from e(1) obtain new where new: "scan_results db' = ?rows @ new"
    "list_all (\<lambda>r. ScanResult.scan_id r = ?sid \<and> ScanResult.status r = PENDING) new"
    "distinct (map ScanResult.id (?rows @ new))" by blast
  let ?cs = "coordinators s @ [(?sid, snd task, Scheduled)]"
  have ok': "store_ok db'"
  proof -
    have "foreign_keys_hold db'"
      using ok new(2) by (auto simp: store_ok_def foreign_keys_hold_def new(1) e(2) list_all_iff)
    with new(3) show ?thesis by (simp add: store_ok_def new(1))
  qed
  have unit_rows: "\<forall>t \<in> set (units s). fst t \<in> set (map ScanResult.id ?rows)"
  proof
    fix t assume "t \<in> set (units s)"
    with inv have "pc_fits (snd (snd t)) (result_status (store s) (fst t))"
      by (simp add: invariant_def)
    then have "result_status (store s) (fst t) \<noteq> None" by (rule pc_fits_exists)
    then show "fst t \<in> set (map ScanResult.id ?rows)"
      by (simp add: result_status_None)
  qed
  have fit: "\<forall>t \<in> set (units s). pc_fits (snd (snd t)) (result_status db' (fst t))"
  proof
    fix t assume t: "t \<in> set (units s)"
    with inv have f: "pc_fits (snd (snd t)) (result_status (store s) (fst t))"
      by (simp add: invariant_def)
    then obtain st where "result_status (store s) (fst t) = Some st"
      using pc_fits_exists by fastforce
    with result_status_append_old [OF new(1) this] f
    show "pc_fits (snd (snd t)) (result_status db' (fst t))" by simp
  qed
  have old_known: "\<forall>c \<in> set (coordinators s). fst c \<in> set (map Scan.id (scans (store s)))"
    using inv by (simp add: invariant_def)
  have cdist: "distinct (map fst ?cs)"
    using inv old_known e(3) by (auto simp: invariant_def)
  have known: "\<forall>c \<in> set ?cs. fst c \<in> set (map Scan.id (scans db'))"
    using old_known by (auto simp: e(2))
  have fresh: "\<forall>c \<in> set ?cs. snd (snd c) = Scheduled \<longrightarrow>
         (\<forall>r \<in> set (scan_results db'). ScanResult.scan_id r = fst c \<longrightarrow>
            ScanResult.status r = PENDING \<and> ScanResult.id r \<notin> set (map fst (units s)))"
  proof (intro ballI impI)
    fix c r assume c: "c \<in> set ?cs" "snd (snd c) = Scheduled"
      and r: "r \<in> set (scan_results db')" "ScanResult.scan_id r = fst c"
    from r(1) consider "r \<in> set ?rows" | "r \<in> set new" by (auto simp: new(1))
    then show "ScanResult.status r = PENDING \<and> ScanResult.id r \<notin> set (map fst (units s))"
    proof cases
      case 1
      with ok have "ScanResult.scan_id r \<in> set (map Scan.id (scans (store s)))"
        by (simp add: store_ok_def foreign_keys_hold_def list_all_iff)
      with e(3) r(2) have "fst c \<noteq> ?sid" by auto
      with c(1) have "c \<in> set (coordinators s)" by auto
      with inv c(2) 1 r(2) show ?thesis by (auto simp: invariant_def)
    next
      case 2
      with new(2) have n: "ScanResult.scan_id r = ?sid" "ScanResult.status r = PENDING"
        by (auto simp: list_all_iff)
      from 2 new(3) have "ScanResult.id r \<notin> set (map ScanResult.id ?rows)"
        by auto
      with unit_rows have "ScanResult.id r \<notin> set (map fst (units s))" by auto
      with n show ?thesis by simp
    qed
  qed
  from inv have "distinct (map fst (units s))" by (simp add: invariant_def)
  with ok' fit cdist known fresh show ?thesis
    unfolding Inr p e(5) by (simp add: invariant_def)
qed


subsection \<open>Every step keeps the invariant\<close>

lemma unit_at:
  assumes "invariant s" and "k < length (units s)" and "units s ! k = (i, u, pc)"
  shows "pc_fits pc (result_status (store s) i)"
proof -
  from assms(2,3) have "(i, u, pc) \<in> set (units s)" by (metis nth_mem)
  with assms(1) show ?thesis by (fastforce simp: invariant_def)
qed

lemma step_preserves:
  assumes "step s l s'" and "invariant s"
  shows "invariant s'"
  using assms
proof (induction rule: step.induct)
  case (request url_to_scan fault now s db' r)
  then show ?case by (simp add: request_preserves)
next
  case (coordinator_start k s sid u fault now db' ids)
  note f = start_tests_frame [OF coordinator_start(3)]
  have "(if ids = [] then Coordinator_done else Joining ids) \<noteq> Scheduled" by simp
  moreover have "ids = [] \<or> (Scheduled = Scheduled \<and>
      ids = map ScanResult.id (filter (\<lambda>r. ScanResult.scan_id r = sid) (scan_results (store s))))"
    using f(3) by simp
  ultimately show ?case
    using coordinator_write_preserves [OF coordinator_start(4) coordinator_start(1,2) _ f(1,2)]
    by blast
next
  case (unit_begin k s i u fault now db' r)
  note e = mark_in_progress_effect [OF unit_begin(3)]
  from unit_at [OF unit_begin(4) unit_begin(1,2)]
  have old: "result_status (store s) i = Some PENDING" by simp
  have fits: "pc_fits (after_begin r) (result_status db' i)"
    using mark_in_progress_status [OF unit_begin(3), of i] old by (cases r) simp_all
  show ?case
    by (rule unit_write_preserves [OF unit_begin(4) unit_begin(1,2) e(2,1) _ _ _ fits]) simp_all
next
  case (unit_logic k s i u test_name env)
  from unit_at [OF unit_logic(3) unit_logic(1,2)]
  have old: "result_status (store s) i = Some IN_PROGRESS" by simp
  have fits: "pc_fits (Before_finish (execute_test_logic env test_name u)) (result_status (store s) i)"
    using old execute_test_logic_terminal [of env test_name u] by simp
  have "invariant (s\<lparr>store := store s,
      units := (units s)[k := (i, u, Before_finish (execute_test_logic env test_name u))]\<rparr>)"
    by (rule unit_write_preserves [OF unit_logic(3) unit_logic(1,2), of "store s" "\<lambda>r. r", OF _ _ _ _ _ fits])
       simp_all
  then show ?case by simp
next
  case (unit_finish k s i u v fault now)
  note e = update_final_results_effect [of i v fault now "store s"]
  from unit_at [OF unit_finish(3) unit_finish(1,2)]
  have old: "result_status (store s) i = Some IN_PROGRESS" by simp
  have fits: "pc_fits Unit_done (result_status (update_final_results i v fault now (store s)) i)"
    using old by (simp add: update_final_results_status)
  show ?case
    by (rule unit_write_preserves [OF unit_finish(3) unit_finish(1,2) e(2,1) _ _ _ fits]) simp_all
next
  case (coordinator_final k s sid u ids now)
  note f = final_scan_update_frame [of sid ids now "store s"]
  have "invariant (s\<lparr>store := final_scan_update sid ids now (store s),
      coordinators := (coordinators s)[k := (sid, u, Coordinator_done)],
      units := units s @ map (\<lambda>i. (i, u, Before_begin)) []\<rparr>)"
    by (rule coordinator_write_preserves [OF coordinator_final(4) coordinator_final(1,2) _ f]) simp_all
  then show ?case by simp
qed

lemma startup_invariant:
  assumes "store_ok db"
  shows "invariant \<lparr>store = populate_test_definitions db, coordinators = [], units = []\<rparr>"
  using assms
  by (simp add: invariant_def store_ok_def foreign_keys_hold_def populate_test_definitions_def)

lemma reachable_invariant: "reachable s \<Longrightarrow> invariant s"
proof (induction rule: reachable.induct)
  case (startup db)
  then show ?case by (rule startup_invariant)
next
  case (after_step s l s')
  then show ?case by (blast intro: step_preserves)
qed


text \<open>
  In the running system the Scan row of every background task exists, which is what
  the properties of the coordinator above assume of the store.
\<close>

lemma coordinator_scan_exists:
  assumes "reachable s" and "(sid, u, pc) \<in> set (coordinators s)"
  shows "\<exists>sc. find (\<lambda>x. Scan.id x = sid) (scans (store s)) = Some sc"
proof -
  from assms(1) have "invariant s" by (rule reachable_invariant)
  with assms(2) have "sid \<in> set (map Scan.id (scans (store s)))"
    by (fastforce simp: invariant_def)
  then have "find (\<lambda>x. Scan.id x = sid) (scans (store s)) \<noteq> None"
    by (auto simp: find_None_iff)
  then show ?thesis by blast
qed

subsection \<open>What a step does to the status of a result\<close>

lemma step_moves:
  assumes "step s l s'" and "invariant s"
  shows "(\<forall>i st. result_status (store s) i = Some st \<longrightarrow>
            (\<exists>st'. result_status (store s') i = Some st' \<and> status_move l i st st'))
       \<and> (\<forall>i st'. result_status (store s) i = None \<longrightarrow> result_status (store s') i = Some st' \<longrightarrow>
            l = Request \<and> st' = PENDING)"
  using assms
proof (induction rule: step.induct)
  case (request url_to_scan fault now s db' r)
  show ?case
  proof (cases r)
    case (Inl e)
    with request(1) have "db' = store s"
      using start_scan_failure_store [of url_to_scan fault now "store s" e] by simp
    then show ?thesis by simp
  next
    case (Inr p)
    obtain response task where p: "p = (response, task)" by (cases p)
    from request(2) have ok: "store_ok (store s)" by (simp add: invariant_def)
    from request_effect(1) [OF request(1) [unfolded Inr p] ok]
    obtain new where new: "scan_results db' = scan_results (store s) @ new"
      "list_all (\<lambda>r. ScanResult.scan_id r = fst task \<and> ScanResult.status r = PENDING) new"
      by blast
    have old: "\<forall>i st. result_status (store s) i = Some st \<longrightarrow>
            (\<exists>st'. result_status db' i = Some st' \<and> status_move Request i st st')"
      using result_status_append_old [OF new(1)] by simp
    have fresh: "\<forall>i st'. result_status (store s) i = None \<longrightarrow> result_status db' i = Some st' \<longrightarrow>
            Request = Request \<and> st' = PENDING"
    proof (intro allI impI)
      fix i st' assume n: "result_status (store s) i = None" and s': "result_status db' i = Some st'"
      from result_status_Some [OF s'] obtain r where r: "r \<in> set (scan_results db')"
        "ScanResult.id r = i" "ScanResult.status r = st'" by blast
      from n r(2) have "r \<notin> set (scan_results (store s))"
        by (auto simp: result_status_None)
      with r(1) have "r \<in> set new" by (simp add: new(1))
      with new(2) r(3) show "Request = Request \<and> st' = PENDING"
        by (auto simp: list_all_iff)
    qed
    from old fresh show ?thesis by simp
  qed
next
  case (coordinator_start k s sid u fault now db' ids)
  from start_tests_frame(1) [OF coordinator_start(3)]
  have "\<And>j. result_status db' j = result_status (store s) j"
    by (rule result_status_same_rows)
  then show ?case by simp
next
  case (unit_begin k s i u fault now db' r)
  from unit_at [OF unit_begin(4) unit_begin(1,2)]
  have old: "result_status (store s) i = Some PENDING" by simp
  show ?case
    using old by (auto simp: mark_in_progress_status [OF unit_begin(3)])
next
  case (unit_logic k s i u test_name env)
  show ?case by simp
next
  case (unit_finish k s i u v fault now)
  from unit_at [OF unit_finish(3) unit_finish(1,2)]
  have old: "result_status (store s) i = Some IN_PROGRESS"
    "final_status v = COMPLETED \<or> final_status v = ERROR" by simp_all
  show ?case
    using old by (auto simp: update_final_results_status)
next
  case (coordinator_final k s sid u ids now)
  from final_scan_update_frame(1) [of sid ids now "store s"]
  have "\<And>j. result_status (final_scan_update sid ids now (store s)) j = result_status (store s) j"
    by (rule result_status_same_rows)
  then show ?case by simp
qed

text \<open>
  C8. In every state that the running system reaches, a step changes the status of a
  ScanResult only as follows: the begin step of the unit of that result moves it from
  PENDING to IN_PROGRESS, the finish step of the unit of that result moves it from
  IN_PROGRESS to COMPLETED or to ERROR, and every other step, and every step for
  another result, leaves it as it is; so no status moves backwards, no terminal result
  is run again, and FAILED is never assigned. A result that a step adds is added by a
  request, with status PENDING. The ids of the results stay unique, so the status of
  a result is that of the one row with its id.
\<close>

theorem result_status_monotonic:
  assumes "reachable s" and "step s l s'"
  shows "(\<forall>i st. result_status (store s) i = Some st \<longrightarrow>
            (\<exists>st'. result_status (store s') i = Some st' \<and> status_move l i st st'))
       \<and> (\<forall>i st'. result_status (store s) i = None \<longrightarrow> result_status (store s') i = Some st' \<longrightarrow>
            l = Request \<and> st' = PENDING)
       \<and> distinct (map ScanResult.id (scan_results (store s')))"
proof -
  from assms have "reachable s'" by (rule reachable.after_step)
  then have "invariant s'" by (rule reachable_invariant)
  then have "distinct (map ScanResult.id (scan_results (store s')))"
    by (simp add: invariant_def store_ok_def)
  with step_moves [OF assms(2) reachable_invariant [OF assms(1)]] show ?thesis by blast
qed

lemma state_1_coordinators: "coordinators state_1 = [(1, ''http://example.com'', Scheduled)]"
  by code_simp

lemma state_2_first_unit:
  "0 < length (units state_2) \<and> units state_2 ! 0 = (1, ''http://example.com'', Before_begin)"
  by code_simp

lemma state_3_status: "result_status (store state_3) 1 = Some IN_PROGRESS"
  by code_simp

lemma state_2_reachable: "reachable state_2"
proof -
  have "store_ok empty_db"
    by (simp add: store_ok_def foreign_keys_hold_def empty_db_def)
  then have r0: "reachable state_0"
    unfolding state_0_def by (rule reachable.startup)
  have "step state_0 Request state_1"
    unfolding state_1_def by (rule step.request) simp
  with r0 have r1: "reachable state_1" by (rule reachable.after_step)
  have "step state_1 (Coordinator_start 1) state_2"
    unfolding state_2_def
    by (rule step.coordinator_start [where fault = None and now = 6])
       (simp_all add: state_1_coordinators)
  with r1 show ?thesis by (rule reachable.after_step)
qed

lemma state_2_step: "step state_2 (Unit_begin 1) state_3"
proof -
  from state_2_first_unit have a: "0 < length (units state_2)"
    and b: "units state_2 ! 0 = (1, ''http://example.com'', Before_begin)" by blast+
  show ?thesis
    unfolding state_3_def
    by (rule step.unit_begin [OF a b, where fault = None and now = 7]) simp
qed

theorem result_status_monotonic_witness:
  "reachable state_2 \<and> step state_2 (Unit_begin 1) state_3
   \<and> result_status (store state_2) 1 = Some PENDING
   \<and> result_status (store state_3) 1 = Some IN_PROGRESS
   \<and> status_move (Unit_begin 1) 1 PENDING IN_PROGRESS"
proof -
  from unit_at [OF reachable_invariant [OF state_2_reachable]] state_2_first_unit
  have "pc_fits Before_begin (result_status (store state_2) 1)" by blast
  then have old: "result_status (store state_2) 1 = Some PENDING" by simp
  from result_status_monotonic [OF state_2_reachable state_2_step] old
  obtain st' where "result_status (store state_3) 1 = Some st'"
    "status_move (Unit_begin 1) 1 PENDING st'" by blast
  with state_3_status have "status_move (Unit_begin 1) 1 PENDING IN_PROGRESS" by simp
  with state_2_reachable state_2_step old state_3_status show ?thesis by blast
qed

end
